theory Spec2Isabelle
  imports Main "HOL-Library.Word"
begin

section \<open>The configuration model of CFGParser.hpp\<close>

text \<open>
  \<^verbatim>\<open>struct Section\<close> holds two vectors of strings and an unordered map from keys to raw
  values. The maps of the class are modelled as partial functions: the code only ever finds,
  inserts and overwrites entries, and never erases one.
\<close>

record Section =
  inheritances :: "string list"
  attributes :: "string list"
  "values" :: "string \<rightharpoonup> string"

text \<open>
  The class itself. \<^verbatim>\<open>_msg_functor\<close> is a \<^verbatim>\<open>std::function\<close> that may be empty: \<open>None\<close> is
  the empty function, \<open>Some log\<close> a registered consumer together with the messages it has
  been called with so far, oldest first.
\<close>

record CFGParser =
  section_data :: "string \<rightharpoonup> Section"
  msg_functor :: "string list option"
  current_file :: string
  base_path :: string

definition Section_new :: Section where
  "Section_new = \<lparr>inheritances = [], attributes = [], values = Map.empty\<rparr>"

text \<open>The default constructor: no sections, empty paths, the printing functor installed.\<close>

definition CFGParser_new :: CFGParser where
  "CFGParser_new = \<lparr>section_data = Map.empty, msg_functor = Some [], current_file = [], base_path = []\<rparr>"

text \<open>\<^verbatim>\<open>if (_msg_functor) _msg_functor(m);\<close>\<close>

definition call_msg_functor :: "string \<Rightarrow> CFGParser \<Rightarrow> CFGParser" where
  "call_msg_functor m P = P\<lparr>msg_functor := map_option (\<lambda>log. log @ [m]) (msg_functor P)\<rparr>"

definition not_exist_msg :: "string \<Rightarrow> string" where
  "not_exist_msg section = ''Section '' @ [CHR 0x22] @ section @ [CHR 0x22] @ '' is not exist!''"

subsection \<open>Lookup\<close>

definition hasSection :: "CFGParser \<Rightarrow> string \<Rightarrow> bool" where
  "hasSection P section = (section_data P section \<noteq> None)"

text \<open>\<^verbatim>\<open>hasKey\<close> is a const method, but it reports an unknown section to the functor.\<close>

definition hasKey :: "CFGParser \<Rightarrow> string \<Rightarrow> string \<Rightarrow> bool \<times> CFGParser" where
  "hasKey P section key =
     (case section_data P section of
        Some sec \<Rightarrow> (values sec key \<noteq> None, P)
      | None \<Rightarrow> (False, call_msg_functor (not_exist_msg section) P))"

text \<open>\<^verbatim>\<open>getInheritances\<close> returns the member \<^verbatim>\<open>_dummy\<close> (the empty vector) for an unknown section.\<close>

definition getInheritances :: "CFGParser \<Rightarrow> string \<Rightarrow> string list \<times> CFGParser" where
  "getInheritances P section =
     (case section_data P section of
        Some sec \<Rightarrow> (inheritances sec, P)
      | None \<Rightarrow> ([], call_msg_functor (not_exist_msg section) P))"

text \<open>
  \<^verbatim>\<open>getValueFromInheritance\<close>: the loop over the inheritance vector; the member
  \<^verbatim>\<open>_dummy_str\<close> (the empty string) is returned when no base binds the key.
\<close>

fun getValueFromInheritance_loop :: "(string \<rightharpoonup> Section) \<Rightarrow> string list \<Rightarrow> string \<Rightarrow> string" where
  "getValueFromInheritance_loop sd [] key = []"
| "getValueFromInheritance_loop sd (inheritance # rest) key =
     (case sd inheritance of
        Some base \<Rightarrow>
          (case values base key of
             Some v \<Rightarrow> v
           | None \<Rightarrow> getValueFromInheritance_loop sd rest key)
      | None \<Rightarrow> getValueFromInheritance_loop sd rest key)"

definition getValueFromInheritance :: "CFGParser \<Rightarrow> Section \<Rightarrow> string \<Rightarrow> string" where
  "getValueFromInheritance P sec key = getValueFromInheritance_loop (section_data P) (inheritances sec) key"

definition getString :: "CFGParser \<Rightarrow> string \<Rightarrow> string \<Rightarrow> string \<Rightarrow> string" where
  "getString P section key default_value =
     (case section_data P section of
        Some sec \<Rightarrow>
          (case values sec key of
             Some v \<Rightarrow> v
           | None \<Rightarrow>
               (let v = getValueFromInheritance P sec key
                in if v \<noteq> [] then v else default_value))
      | None \<Rightarrow> default_value)"

subsection \<open>Typed getters\<close>

text \<open>
  The numeric conversions of \<^verbatim>\<open>makeValueFromString\<close> call the standard library
  (\<^verbatim>\<open>std::stoi\<close> and its siblings), which throws; the getters are \<^verbatim>\<open>noexcept\<close>, so a
  throw ends the program. A conversion is a function into \<open>conv_error + 'a\<close>, and the generic
  getters take the conversion for \<open>T\<close> as their first argument.
\<close>

datatype conv_error = invalid_argument | out_of_range

text \<open>The branch for \<^verbatim>\<open>bool\<close>, which cannot fail.\<close>

definition makeValueFromString_bool :: "string \<Rightarrow> conv_error + bool" where
  "makeValueFromString_bool string_value =
     Inr (string_value = ''true'' \<or> string_value = ''on'' \<or> string_value = ''yes'')"

text \<open>
  The branch for \<^verbatim>\<open>int\<close> is \<^verbatim>\<open>std::stoi(string_value)\<close>, a function of the C++ standard
  library and not of this repository. It is written out after the standard: leading white
  space is skipped, an optional sign is read, then the longest run of decimal digits; no
  digit at all is \<^verbatim>\<open>std::invalid_argument\<close>, a value that does not fit a 32-bit \<^verbatim>\<open>int\<close> is
  \<^verbatim>\<open>std::out_of_range\<close>, and whatever follows the digits is ignored.
\<close>

definition is_space :: "char \<Rightarrow> bool" where
  "is_space c = (c = CHR '' '' \<or> c = CHR 0x09 \<or> c = CHR 0x0A \<or> c = CHR 0x0B \<or> c = CHR 0x0C \<or> c = CHR 0x0D)"

definition is_digit :: "char \<Rightarrow> bool" where
  "is_digit c = (48 \<le> (of_char c :: nat) \<and> (of_char c :: nat) \<le> 57)"

definition digit_val :: "char \<Rightarrow> int" where
  "digit_val c = int (of_char c) - 48"

definition digits_val :: "string \<Rightarrow> int" where
  "digits_val ds = foldl (\<lambda>acc d. 10 * acc + digit_val d) 0 ds"

definition stoi :: "string \<Rightarrow> conv_error + int" where
  "stoi s =
     (let t = dropWhile is_space s;
          (neg, u) = (case t of
                        c # r \<Rightarrow> if c = CHR ''-'' then (True, r)
                                 else if c = CHR ''+'' then (False, r)
                                 else (False, t)
                      | [] \<Rightarrow> (False, t));
          ds = takeWhile is_digit u
      in if ds = [] then Inl invalid_argument
         else (let v = (if neg then - digits_val ds else digits_val ds)
               in if - (2 ^ 31) \<le> v \<and> v < 2 ^ 31 then Inr v else Inl out_of_range))"

definition makeValueFromString_int :: "string \<Rightarrow> conv_error + int" where
  "makeValueFromString_int string_value = stoi string_value"

text \<open>\<^verbatim>\<open>get<T>\<close>: the raw string is looked up with the empty default.\<close>

definition get :: "(string \<Rightarrow> conv_error + 'a) \<Rightarrow> CFGParser \<Rightarrow> string \<Rightarrow> string \<Rightarrow> 'a \<Rightarrow> conv_error + 'a" where
  "get makeValueFromString P section key default_value =
     (let str = getString P section key []
      in if str \<noteq> [] then makeValueFromString str else Inr default_value)"

text \<open>
  \<^verbatim>\<open>getArray<T>\<close>: the loop over the characters of the raw string, with the vector
  \<open>result\<close> and the buffer \<open>num_str\<close>; after the loop the last buffer is pushed.
\<close>

fun getArray_loop :: "(string \<Rightarrow> conv_error + 'a) \<Rightarrow> 'a list \<Rightarrow> string \<Rightarrow> string \<Rightarrow> conv_error + 'a list" where
  "getArray_loop makeValueFromString result num_str [] =
     (case makeValueFromString num_str of
        Inl e \<Rightarrow> Inl e
      | Inr v \<Rightarrow> Inr (result @ [v]))"
| "getArray_loop makeValueFromString result num_str (character # rest) =
     (if character = CHR '','' then
        (case makeValueFromString num_str of
           Inl e \<Rightarrow> Inl e
         | Inr v \<Rightarrow> getArray_loop makeValueFromString (result @ [v]) [] rest)
      else getArray_loop makeValueFromString result (num_str @ [character]) rest)"

definition getArray :: "(string \<Rightarrow> conv_error + 'a) \<Rightarrow> CFGParser \<Rightarrow> string \<Rightarrow> string \<Rightarrow> conv_error + 'a list" where
  "getArray makeValueFromString P section key =
     (let str = getString P section key []
      in if str \<noteq> [] then getArray_loop makeValueFromString [] [] str else Inr [])"

section \<open>The parser: \<^verbatim>\<open>CFGParser::load\<close>\<close>

datatype ParseAction =
  NEW_LINE | SECTION | INHERITANCE | ATTRIBUTE | KEY | VALUE | VALUE_ARRAY | STRING_VALUE
  | COMMENT | MULTILINE_COMMENT | PREPROCESSOR | INCLUDE | ERROR

text \<open>
  The local variables of one call of \<^verbatim>\<open>load\<close>. \<^verbatim>\<open>section_ptr\<close> points into the section
  map; since entries of an unordered map keep their address and are never erased, the pointer
  is the name of the section it points to, and \<open>None\<close> is the null pointer. The counters are
  \<^verbatim>\<open>uint32_t\<close>.
\<close>

record locals =
  "section" :: string
  inheritance :: string
  attribute :: string
  key :: string
  "value" :: string
  preprocessor_pair :: "string \<times> string"
  section_ptr :: "string option"
  parse_action :: ParseAction
  line :: "32 word"
  character_pos :: "32 word"
  ignore_current_spaces :: bool

definition locals_init :: locals where
  "locals_init =
     \<lparr>section = [], inheritance = [], attribute = [], key = [], value = [],
      preprocessor_pair = ([], []), section_ptr = None, parse_action = NEW_LINE,
      line = 1, character_pos = 0, ignore_current_spaces = True\<rparr>"

text \<open>\<^verbatim>\<open>std::to_string\<close> of an unsigned number: its decimal digits.\<close>

definition digit_char :: "nat \<Rightarrow> char" where
  "digit_char d = ''0123456789'' ! (d mod 10)"

fun to_string :: "nat \<Rightarrow> string" where
  "to_string n =
     (if n < 10 then [digit_char n]
      else to_string (n div 10) @ [digit_char (n mod 10)])"

declare to_string.simps [simp del]

definition GetErrorLineString :: "locals \<Rightarrow> string" where
  "GetErrorLineString ls =
     ''Error at line '' @ [CHR 0x27] @ to_string (unat (line ls)) @ [CHR 0x27] @
     '', character at '' @ [CHR 0x27] @ to_string (unat (character_pos ls)) @ [CHR 0x27] @ '' : ''"

definition msg :: "locals \<Rightarrow> string \<Rightarrow> CFGParser \<Rightarrow> CFGParser" where
  "msg ls message P = call_msg_functor (GetErrorLineString ls @ message) P"

text \<open>
  A write through \<^verbatim>\<open>section_ptr\<close>. The pointer always names a section of the map (it is set
  only by a successful insertion); the other branch cannot be reached and leaves the map alone.
\<close>

definition at_section_ptr :: "string \<Rightarrow> (Section \<Rightarrow> Section) \<Rightarrow> CFGParser \<Rightarrow> CFGParser" where
  "at_section_ptr name f P =
     (case section_data P name of
        Some sec \<Rightarrow> P\<lparr>section_data := (section_data P)(name \<mapsto> f sec)\<rparr>
      | None \<Rightarrow> P)"

definition PushInheritance :: "locals \<Rightarrow> CFGParser \<Rightarrow> locals \<times> CFGParser" where
  "PushInheritance ls P =
     (case section_ptr ls of
        Some name \<Rightarrow>
          (if inheritance ls \<noteq> [] then
             (ls\<lparr>inheritance := []\<rparr>,
              if section_data P (inheritance ls) \<noteq> None
              then at_section_ptr name (\<lambda>sec. sec\<lparr>inheritances := inheritances sec @ [inheritance ls]\<rparr>) P
              else msg ls (''Inherited section '' @ [CHR 0x22] @ inheritance ls @ [CHR 0x22] @ '' is not exist!'') P)
           else (ls, P))
      | None \<Rightarrow> (ls, P))"

definition PushAttribute :: "locals \<Rightarrow> CFGParser \<Rightarrow> locals \<times> CFGParser" where
  "PushAttribute ls P =
     (case section_ptr ls of
        Some name \<Rightarrow>
          (if attribute ls \<noteq> [] then
             (ls\<lparr>attribute := []\<rparr>,
              at_section_ptr name (\<lambda>sec. sec\<lparr>attributes := attributes sec @ [attribute ls]\<rparr>) P)
           else (ls, P))
      | None \<Rightarrow> (ls, P))"

text \<open>
  \<^verbatim>\<open>IncludeFile\<close>: the recursive call of \<^verbatim>\<open>load\<close> is the argument \<open>inc\<close>; it returns \<open>None\<close>
  when the chain of includes does not end. The current file is saved and restored.
\<close>

definition IncludeFile :: "(string \<Rightarrow> CFGParser \<Rightarrow> CFGParser option) \<Rightarrow> string \<Rightarrow> CFGParser \<Rightarrow> CFGParser option" where
  "IncludeFile inc path P =
     (case inc (base_path P @ path) P of
        None \<Rightarrow> None
      | Some P' \<Rightarrow> Some (P'\<lparr>current_file := current_file P\<rparr>))"

subsection \<open>The cases of the switch over the character\<close>

definition case_comment_character :: "char \<Rightarrow> locals \<Rightarrow> CFGParser \<Rightarrow> locals \<times> CFGParser" where
  "case_comment_character c ls P =
     (case parse_action ls of
        STRING_VALUE \<Rightarrow> (ls\<lparr>value := value ls @ [c]\<rparr>, P)
      | _ \<Rightarrow> (ls\<lparr>parse_action := COMMENT\<rparr>, P))"

definition case_comment_multiline :: "char \<Rightarrow> locals \<Rightarrow> CFGParser \<Rightarrow> locals \<times> CFGParser" where
  "case_comment_multiline c ls P =
     (case parse_action ls of
        STRING_VALUE \<Rightarrow> (ls\<lparr>value := value ls @ [c]\<rparr>, P)
      | MULTILINE_COMMENT \<Rightarrow> (ls\<lparr>parse_action := NEW_LINE\<rparr>, P)
      | _ \<Rightarrow> (ls\<lparr>parse_action := MULTILINE_COMMENT\<rparr>, P))"

definition space_error :: "locals \<Rightarrow> CFGParser \<Rightarrow> locals \<times> CFGParser" where
  "space_error ls P =
     (if \<not> ignore_current_spaces ls
      then (ls\<lparr>parse_action := ERROR\<rparr>, msg ls ''Space in wrong place'' P)
      else (ls, P))"

definition case_space :: "char \<Rightarrow> locals \<Rightarrow> CFGParser \<Rightarrow> locals \<times> CFGParser" where
  "case_space c ls P =
     (case parse_action ls of
        STRING_VALUE \<Rightarrow> (ls\<lparr>value := value ls @ [c]\<rparr>, P)
      | PREPROCESSOR \<Rightarrow>
          (ls\<lparr>parse_action := (if fst (preprocessor_pair ls) = ''include'' then INCLUDE else PREPROCESSOR),
              preprocessor_pair := ([], snd (preprocessor_pair ls))\<rparr>, P)
      | ATTRIBUTE \<Rightarrow> space_error ls P
      | INHERITANCE \<Rightarrow> space_error ls P
      | KEY \<Rightarrow> space_error ls P
      | SECTION \<Rightarrow> space_error ls P
      | VALUE \<Rightarrow> space_error ls P
      | _ \<Rightarrow> (ls, P))"

text \<open>
  The backslash outside a string value. Inside a string value the case reads one more
  character from the file; that branch is \<open>escape\<close> below and is taken by the loop.
\<close>

definition case_backslash :: "locals \<Rightarrow> CFGParser \<Rightarrow> locals \<times> CFGParser" where
  "case_backslash ls P =
     (case parse_action ls of
        COMMENT \<Rightarrow> (ls, P)
      | MULTILINE_COMMENT \<Rightarrow> (ls, P)
      | _ \<Rightarrow> (ls\<lparr>parse_action := ERROR\<rparr>, msg ls ''Unexpected escape-symbol'' P))"

text \<open>The inner switch over the character that follows a backslash in a string value.\<close>

definition escape :: "char \<Rightarrow> locals \<Rightarrow> CFGParser \<Rightarrow> locals \<times> CFGParser" where
  "escape d ls P =
     (if d = CHR 0x5C then (ls\<lparr>value := value ls @ [CHR 0x5C]\<rparr>, P)
      else if d = CHR ''n'' then (ls\<lparr>value := value ls @ [CHR 0x0A]\<rparr>, P)
      else if d = CHR 0x22 then (ls\<lparr>value := value ls @ [CHR 0x22]\<rparr>, P)
      else if d = CHR 0x27 then (ls\<lparr>value := value ls @ [CHR 0x27]\<rparr>, P)
      else (ls, msg ls ''Unknown escape-sequence symbol'' P))"

definition case_quote :: "locals \<Rightarrow> CFGParser \<Rightarrow> locals \<times> CFGParser" where
  "case_quote ls P =
     (case parse_action ls of
        STRING_VALUE \<Rightarrow> (ls\<lparr>parse_action := VALUE\<rparr>, P)
      | VALUE \<Rightarrow> (ls\<lparr>parse_action := STRING_VALUE\<rparr>, P)
      | _ \<Rightarrow> (ls, P))"

definition case_hash :: "char \<Rightarrow> locals \<Rightarrow> CFGParser \<Rightarrow> locals \<times> CFGParser" where
  "case_hash c ls P =
     (case parse_action ls of
        COMMENT \<Rightarrow> (ls, P)
      | MULTILINE_COMMENT \<Rightarrow> (ls, P)
      | NEW_LINE \<Rightarrow> (ls\<lparr>parse_action := PREPROCESSOR\<rparr>, P)
      | STRING_VALUE \<Rightarrow> (ls\<lparr>value := value ls @ [c]\<rparr>, P)
      | _ \<Rightarrow> (ls\<lparr>parse_action := ERROR\<rparr>, msg ls ''Preprocessor parse error'' P))"

text \<open>The commit of a value at the end of a line: \<^verbatim>\<open>section_ptr->values[key] = value\<close>.\<close>

definition commit_value :: "locals \<Rightarrow> CFGParser \<Rightarrow> locals \<times> CFGParser" where
  "commit_value ls P =
     (ls\<lparr>key := [], value := []\<rparr>,
      case section_ptr ls of
        Some name \<Rightarrow> at_section_ptr name (\<lambda>sec. sec\<lparr>values := (values sec)(key ls \<mapsto> value ls)\<rparr>) P
      | None \<Rightarrow> P)"

text \<open>The reset that follows the inner switch of the newline case.\<close>

definition newline_reset :: "locals \<Rightarrow> locals" where
  "newline_reset ls =
     (if parse_action ls \<noteq> STRING_VALUE \<and> parse_action ls \<noteq> MULTILINE_COMMENT
      then ls\<lparr>parse_action := NEW_LINE, character_pos := 0\<rparr>
      else ls)
     \<lparr>line := line ls + 1, ignore_current_spaces := True\<rparr>"

definition case_newline :: "locals \<Rightarrow> CFGParser \<Rightarrow> locals \<times> CFGParser" where
  "case_newline ls P =
     (let (ls', P') =
        (case parse_action ls of
           COMMENT \<Rightarrow> (ls, P)
         | MULTILINE_COMMENT \<Rightarrow> (ls, P)
         | INHERITANCE \<Rightarrow> PushInheritance ls P
         | PREPROCESSOR \<Rightarrow> (ls, P)
         | INCLUDE \<Rightarrow> (ls, P)
         | ATTRIBUTE \<Rightarrow> PushAttribute ls P
         | VALUE \<Rightarrow> commit_value ls P
         | VALUE_ARRAY \<Rightarrow> commit_value ls P
         | STRING_VALUE \<Rightarrow> (ls, P)
         | NEW_LINE \<Rightarrow> (ls, P)
         | SECTION \<Rightarrow> (ls\<lparr>parse_action := NEW_LINE\<rparr>, P)
         | _ \<Rightarrow> (ls\<lparr>parse_action := ERROR\<rparr>, msg ls ''New line parse error'' P))
      in (newline_reset ls', P'))"

definition case_lt :: "char \<Rightarrow> locals \<Rightarrow> CFGParser \<Rightarrow> locals \<times> CFGParser" where
  "case_lt c ls P =
     (case parse_action ls of
        STRING_VALUE \<Rightarrow> (ls\<lparr>value := value ls @ [c]\<rparr>, P)
      | _ \<Rightarrow> (ls, P))"

definition case_gt :: "(string \<Rightarrow> CFGParser \<Rightarrow> CFGParser option) \<Rightarrow> char \<Rightarrow> locals \<Rightarrow> CFGParser \<Rightarrow> (locals \<times> CFGParser) option" where
  "case_gt inc c ls P =
     (case parse_action ls of
        STRING_VALUE \<Rightarrow> Some (ls\<lparr>value := value ls @ [c]\<rparr>, P)
      | INCLUDE \<Rightarrow>
          (case IncludeFile inc (snd (preprocessor_pair ls)) P of
             None \<Rightarrow> None
           | Some P' \<Rightarrow> Some (ls\<lparr>preprocessor_pair := (fst (preprocessor_pair ls), [])\<rparr>, P'))
      | _ \<Rightarrow> Some (ls, P))"

definition case_open_bracket :: "char \<Rightarrow> locals \<Rightarrow> CFGParser \<Rightarrow> locals \<times> CFGParser" where
  "case_open_bracket c ls P =
     (case parse_action ls of
        COMMENT \<Rightarrow> (ls, P)
      | MULTILINE_COMMENT \<Rightarrow> (ls, P)
      | NEW_LINE \<Rightarrow>
          (ls\<lparr>ignore_current_spaces := False, parse_action := SECTION, section := [], section_ptr := None\<rparr>, P)
      | STRING_VALUE \<Rightarrow> (ls\<lparr>value := value ls @ [c]\<rparr>, P)
      | _ \<Rightarrow> (ls\<lparr>parse_action := ERROR\<rparr>, msg ls ''Section naming parse error'' P))"

text \<open>\<^verbatim>\<open>_section_data.try_emplace(section, Section{})\<close> at the closing bracket.\<close>

definition case_close_bracket :: "char \<Rightarrow> locals \<Rightarrow> CFGParser \<Rightarrow> locals \<times> CFGParser" where
  "case_close_bracket c ls P =
     (case parse_action ls of
        COMMENT \<Rightarrow> (ls, P)
      | MULTILINE_COMMENT \<Rightarrow> (ls, P)
      | SECTION \<Rightarrow>
          (if section_data P (section ls) = None
           then (ls\<lparr>section_ptr := Some (section ls), ignore_current_spaces := True\<rparr>,
                 P\<lparr>section_data := (section_data P)(section ls \<mapsto> Section_new)\<rparr>)
           else (ls\<lparr>ignore_current_spaces := True\<rparr>,
                 msg ls (''Section '' @ [CHR 0x22] @ section ls @ [CHR 0x22] @ '' already exist.'') P))
      | STRING_VALUE \<Rightarrow> (ls\<lparr>value := value ls @ [c]\<rparr>, P)
      | _ \<Rightarrow> (ls\<lparr>parse_action := ERROR\<rparr>, msg ls ''Section naming parse error'' P))"

definition case_comma :: "char \<Rightarrow> locals \<Rightarrow> CFGParser \<Rightarrow> locals \<times> CFGParser" where
  "case_comma c ls P =
     (case parse_action ls of
        COMMENT \<Rightarrow> (ls, P)
      | MULTILINE_COMMENT \<Rightarrow> (ls, P)
      | INHERITANCE \<Rightarrow> PushInheritance ls P
      | ATTRIBUTE \<Rightarrow> PushAttribute ls P
      | STRING_VALUE \<Rightarrow> (ls\<lparr>value := value ls @ [c]\<rparr>, P)
      | VALUE_ARRAY \<Rightarrow> (ls\<lparr>value := value ls @ [c]\<rparr>, P)
      | VALUE \<Rightarrow> (ls\<lparr>parse_action := VALUE_ARRAY, value := value ls @ [c]\<rparr>, P)
      | _ \<Rightarrow> (ls\<lparr>parse_action := ERROR\<rparr>, msg ls ''Enumeration error'' P))"

definition case_colon :: "char \<Rightarrow> locals \<Rightarrow> CFGParser \<Rightarrow> locals \<times> CFGParser" where
  "case_colon c ls P =
     (case parse_action ls of
        COMMENT \<Rightarrow> (ls, P)
      | MULTILINE_COMMENT \<Rightarrow> (ls, P)
      | SECTION \<Rightarrow> (ls\<lparr>parse_action := INHERITANCE\<rparr>, P)
      | STRING_VALUE \<Rightarrow> (ls\<lparr>value := value ls @ [c]\<rparr>, P)
      | _ \<Rightarrow> (ls\<lparr>parse_action := ERROR\<rparr>, msg ls ''Inheritance error'' P))"

text \<open>
  The key is inserted with an empty value when \<open>=\<close> is read:
  \<^verbatim>\<open>section_ptr->values.try_emplace(key, std::string {})\<close>.
\<close>

definition emplace_key :: "locals \<Rightarrow> CFGParser \<Rightarrow> CFGParser" where
  "emplace_key ls P =
     (case section_ptr ls of
        Some name \<Rightarrow>
          (case section_data P name of
             Some sec \<Rightarrow>
               (if values sec (key ls) = None
                then P\<lparr>section_data := (section_data P)(name \<mapsto> sec\<lparr>values := (values sec)(key ls \<mapsto> [])\<rparr>)\<rparr>
                else msg ls (''Section '' @ [CHR 0x22] @ section ls @ [CHR 0x22] @ '' key '' @ [CHR 0x22] @
                             key ls @ [CHR 0x22] @ '' already exist.'') P)
           | None \<Rightarrow> P)
      | None \<Rightarrow> P)"

definition case_equals :: "char \<Rightarrow> locals \<Rightarrow> CFGParser \<Rightarrow> locals \<times> CFGParser" where
  "case_equals c ls P =
     (case parse_action ls of
        COMMENT \<Rightarrow> (ls, P)
      | MULTILINE_COMMENT \<Rightarrow> (ls, P)
      | SECTION \<Rightarrow> (ls\<lparr>parse_action := ATTRIBUTE\<rparr>, P)
      | INHERITANCE \<Rightarrow> (let (ls', P') = PushInheritance ls P in (ls'\<lparr>parse_action := ATTRIBUTE\<rparr>, P'))
      | KEY \<Rightarrow> (ls\<lparr>parse_action := VALUE\<rparr>, emplace_key ls P)
      | STRING_VALUE \<Rightarrow> (ls\<lparr>value := value ls @ [c]\<rparr>, P)
      | _ \<Rightarrow> (ls\<lparr>parse_action := ERROR\<rparr>, msg ls ''Set value error'' P))"

definition case_default :: "char \<Rightarrow> locals \<Rightarrow> CFGParser \<Rightarrow> locals \<times> CFGParser" where
  "case_default c ls P =
     (case parse_action ls of
        COMMENT \<Rightarrow> (ls, P)
      | MULTILINE_COMMENT \<Rightarrow> (ls, P)
      | NEW_LINE \<Rightarrow> (ls\<lparr>parse_action := KEY, key := key ls @ [c]\<rparr>, P)
      | PREPROCESSOR \<Rightarrow> (ls\<lparr>preprocessor_pair := (fst (preprocessor_pair ls) @ [c], snd (preprocessor_pair ls))\<rparr>, P)
      | INCLUDE \<Rightarrow> (ls\<lparr>preprocessor_pair := (fst (preprocessor_pair ls), snd (preprocessor_pair ls) @ [c])\<rparr>, P)
      | SECTION \<Rightarrow> (ls\<lparr>section := section ls @ [c]\<rparr>, P)
      | INHERITANCE \<Rightarrow> (ls\<lparr>inheritance := inheritance ls @ [c]\<rparr>, P)
      | ATTRIBUTE \<Rightarrow> (ls\<lparr>attribute := attribute ls @ [c]\<rparr>, P)
      | KEY \<Rightarrow> (ls\<lparr>key := key ls @ [c]\<rparr>, P)
      | VALUE \<Rightarrow> (ls\<lparr>value := value ls @ [c]\<rparr>, P)
      | VALUE_ARRAY \<Rightarrow> (ls\<lparr>value := value ls @ [c]\<rparr>, P)
      | STRING_VALUE \<Rightarrow> (ls\<lparr>value := value ls @ [c]\<rparr>, P)
      | ERROR \<Rightarrow> (ls\<lparr>parse_action := ERROR\<rparr>, msg ls ''Invalid character error'' P))"

subsection \<open>The loop over the file\<close>

text \<open>
  \<^verbatim>\<open>file.get()\<close> returns an \<^verbatim>\<open>int\<close>; at the end of the file it returns \<^verbatim>\<open>EOF\<close>, that is \<open>-1\<close>,
  and sets the end-of-file bit. \<open>-1\<close> matches no case label and becomes the byte \<open>0xFF\<close> when
  it is appended to a string, exactly as a byte \<open>0xFF\<close> of the file does.
\<close>

definition eof_character :: char where
  "eof_character = CHR 0xFF"

definition switch_character :: "(string \<Rightarrow> CFGParser \<Rightarrow> CFGParser option) \<Rightarrow> char \<Rightarrow> locals \<Rightarrow> CFGParser \<Rightarrow> (locals \<times> CFGParser) option" where
  "switch_character inc c ls P =
     (if c = CHR '';'' then Some (case_comment_character c ls P)
      else if c = CHR ''|'' then Some (case_comment_multiline c ls P)
      else if c = CHR '' '' \<or> c = CHR 0x09 then Some (case_space c ls P)
      else if c = CHR 0x5C then Some (case_backslash ls P)
      else if c = CHR 0x22 then Some (case_quote ls P)
      else if c = CHR ''#'' then Some (case_hash c ls P)
      else if c = CHR 0x0A then Some (case_newline ls P)
      else if c = CHR ''<'' then Some (case_lt c ls P)
      else if c = CHR ''>'' then case_gt inc c ls P
      else if c = CHR ''['' then Some (case_open_bracket c ls P)
      else if c = CHR '']'' then Some (case_close_bracket c ls P)
      else if c = CHR '','' then Some (case_comma c ls P)
      else if c = CHR '':'' then Some (case_colon c ls P)
      else if c = CHR ''='' then Some (case_equals c ls P)
      else Some (case_default c ls P))"

text \<open>\<^verbatim>\<open>++character_pos\<close> at the end of the loop body.\<close>

definition next_pos :: "locals \<Rightarrow> locals" where
  "next_pos ls = ls\<lparr>character_pos := character_pos ls + 1\<rparr>"

text \<open>
  The \<^verbatim>\<open>while (!file.eof())\<close> loop over the bytes that are left in the file. The loop
  body runs once for every byte; a backslash in a string value takes the following byte with
  it. The third component of the result tells whether that inner \<^verbatim>\<open>file.get()\<close> has already
  met the end of the file; if not, the body runs one last time on \<^verbatim>\<open>EOF\<close> (see \<open>load_file\<close>).
\<close>

fun load_loop :: "(string \<Rightarrow> CFGParser \<Rightarrow> CFGParser option) \<Rightarrow> locals \<Rightarrow> CFGParser \<Rightarrow> string \<Rightarrow> (locals \<times> CFGParser \<times> bool) option" where
  "load_loop inc ls P [] = Some (ls, P, False)"
| "load_loop inc ls P (c # cs) =
     (if c = CHR 0x5C \<and> parse_action ls = STRING_VALUE then
        (case cs of
           [] \<Rightarrow> (case escape eof_character ls P of (ls', P') \<Rightarrow> Some (next_pos ls', P', True))
         | d # ds \<Rightarrow> (case escape d ls P of (ls', P') \<Rightarrow> load_loop inc (next_pos ls') P' ds))
      else
        (case switch_character inc c ls P of
           None \<Rightarrow> None
         | Some (ls', P') \<Rightarrow> load_loop inc (next_pos ls') P' cs))"

text \<open>
  One call of \<^verbatim>\<open>load\<close>. The file system is a partial map from paths to the bytes of the
  files that can be opened for reading. \<open>inc\<close> is the recursive call made by an include.
\<close>

definition load_file :: "(string \<Rightarrow> CFGParser \<Rightarrow> CFGParser option) \<Rightarrow> (string \<rightharpoonup> string) \<Rightarrow> string \<Rightarrow> CFGParser \<Rightarrow> CFGParser option" where
  "load_file inc fs file_path P =
     (let P1 = P\<lparr>current_file := file_path\<rparr>
      in case fs file_path of
           None \<Rightarrow> Some (call_msg_functor (''Cannot open file '' @ [CHR 0x22] @ file_path @ [CHR 0x22] @ ''.'') P1)
         | Some bytes \<Rightarrow>
             (case load_loop inc locals_init P1 bytes of
                None \<Rightarrow> None
              | Some (ls, P2, eof) \<Rightarrow>
                  if eof then Some P2
                  else map_option snd (switch_character inc eof_character ls P2)))"

text \<open>
  \<^verbatim>\<open>load\<close> itself. Nothing in the code bounds the depth of includes, and a file that includes
  itself never lets \<^verbatim>\<open>load\<close> return. The first argument bounds the depth of nested includes;
  \<open>None\<close> says that the bound was exceeded.
\<close>

primrec load :: "nat \<Rightarrow> (string \<rightharpoonup> string) \<Rightarrow> string \<Rightarrow> CFGParser \<Rightarrow> CFGParser option" where
  "load 0 fs = load_file (\<lambda>path P. None) fs"
| "load (Suc depth) fs = load_file (load depth fs) fs"

section \<open>Writing the file: \<^verbatim>\<open>CFGParser::save\<close>\<close>

text \<open>
  \<^verbatim>\<open>save\<close> writes the sections in the iteration order of the \<^verbatim>\<open>std::unordered_map\<close>, and
  the keys of a section in the iteration order of its own map. The code does not fix these
  orders, so they are parameters here: \<open>section_order\<close> lists the section names and
  \<open>value_order name\<close> lists the keys of the section \<open>name\<close>.

  The two loops over the vectors write a comma and a space before every element but the first; the
  flag says whether the iterator still is \<^verbatim>\<open>cbegin()\<close>.
\<close>

text \<open>The line break.\<close>

definition nl :: string where
  "nl = [CHR 0x0A]"

text \<open>The loop over a vector of names.\<close>

fun write_names :: "bool \<Rightarrow> string list \<Rightarrow> string" where
  "write_names first [] = []"
| "write_names first (x # xs) = (if first then [] else '', '') @ x @ write_names False xs"

text \<open>The header line: the name in brackets, the two optional lists and the line break.\<close>

definition header_text :: "string \<Rightarrow> string list \<Rightarrow> string list \<Rightarrow> string" where
  "header_text name inh attrs =
     ''['' @ name @ '']''
     @ (if inh \<noteq> [] then '' : '' @ write_names True inh else [])
     @ (if attrs \<noteq> [] then '' = '' @ write_names True attrs else [])
     @ nl"

text \<open>One turn of the outer loop: the header, a line for every key, and an empty line.\<close>

definition save_section :: "(string \<Rightarrow> string list) \<Rightarrow> CFGParser \<Rightarrow> string \<Rightarrow> string" where
  "save_section value_order P name =
     (case section_data P name of
        None \<Rightarrow> []
      | Some sec \<Rightarrow>
          header_text name (inheritances sec) (attributes sec)
          @ concat (map (\<lambda>k. case values sec k of None \<Rightarrow> [] | Some v \<Rightarrow> k @ '' = '' @ v @ nl) (value_order name))
          @ nl)"

definition save_text :: "string list \<Rightarrow> (string \<Rightarrow> string list) \<Rightarrow> CFGParser \<Rightarrow> string" where
  "save_text section_order value_order P = concat (map (save_section value_order P) section_order)"

text \<open>
  The file system after \<^verbatim>\<open>save\<close>. The code does not test whether the \<^verbatim>\<open>std::ofstream\<close> could
  be opened; the model takes it that it could.
\<close>

definition save :: "string list \<Rightarrow> (string \<Rightarrow> string list) \<Rightarrow> string \<Rightarrow> CFGParser \<Rightarrow> (string \<rightharpoonup> string) \<Rightarrow> (string \<rightharpoonup> string)" where
  "save section_order value_order file_path P fs = fs(file_path \<mapsto> save_text section_order value_order P)"

section \<open>Notions used in the statements\<close>

subsection \<open>Lookup as the specification words it\<close>

text \<open>
  The specification's lookup rule: the value bound in the first base of the inheritance list
  that exists and binds the key. Only the bases' own values are looked at.
\<close>

definition binds_key :: "(string \<rightharpoonup> Section) \<Rightarrow> string \<Rightarrow> string \<Rightarrow> bool" where
  "binds_key sd K b = (case sd b of Some base \<Rightarrow> values base K \<noteq> None | None \<Rightarrow> False)"

definition first_base_binding :: "(string \<rightharpoonup> Section) \<Rightarrow> string list \<Rightarrow> string \<Rightarrow> string option" where
  "first_base_binding sd bases K =
     (case find (binds_key sd K) bases of
        Some b \<Rightarrow> (case sd b of Some base \<Rightarrow> values base K | None \<Rightarrow> None)
      | None \<Rightarrow> None)"

definition getString_claimed :: "CFGParser \<Rightarrow> string \<Rightarrow> string \<Rightarrow> string \<Rightarrow> string" where
  "getString_claimed P S K d =
     (case section_data P S of
        None \<Rightarrow> d
      | Some sec \<Rightarrow>
          (case values sec K of
             Some v \<Rightarrow> v
           | None \<Rightarrow>
               (case first_base_binding (section_data P) (inheritances sec) K of
                  Some v \<Rightarrow> v
                | None \<Rightarrow> d)))"

subsection \<open>Splitting on commas\<close>

text \<open>The segments between the commas of a string, and the inverse, joining with commas.\<close>

fun segments :: "string \<Rightarrow> string list" where
  "segments [] = [[]]"
| "segments (c # cs) =
     (if c = CHR '','' then [] # segments cs
      else (case segments cs of s # ss \<Rightarrow> (c # s) # ss | [] \<Rightarrow> [[c]]))"

fun join_commas :: "string list \<Rightarrow> string" where
  "join_commas [] = []"
| "join_commas [s] = s"
| "join_commas (s # t # ss) = s @ CHR '','' # join_commas (t # ss)"

text \<open>Coercing the segments in order; the first failure is the outcome.\<close>

fun coerce_all :: "(string \<Rightarrow> conv_error + 'a) \<Rightarrow> string list \<Rightarrow> conv_error + 'a list" where
  "coerce_all mk [] = Inr []"
| "coerce_all mk (s # ss) =
     (case mk s of
        Inl e \<Rightarrow> Inl e
      | Inr v \<Rightarrow> (case coerce_all mk ss of Inl e \<Rightarrow> Inl e | Inr vs \<Rightarrow> Inr (v # vs)))"

subsection \<open>Example files and the models they load to\<close>

text \<open>A key with an empty value, inherited by a second section.\<close>

definition empty_value_input :: string where
  "empty_value_input = ''[a]'' @ nl @ ''x='' @ nl @ ''[b]:a'' @ nl"

definition empty_value_model :: CFGParser where
  "empty_value_model =
     \<lparr>section_data =
        [''a'' \<mapsto> \<lparr>inheritances = [], attributes = [], values = [''x'' \<mapsto> []]\<rparr>,
         ''b'' \<mapsto> \<lparr>inheritances = [''a''], attributes = [], values = Map.empty\<rparr>],
      msg_functor = Some [], current_file = ''f'', base_path = []\<rparr>"

text \<open>Two bases bind the key, the first of them to the empty string.\<close>

definition empty_first_base_input :: string where
  "empty_first_base_input = ''[e]'' @ nl @ ''x='' @ nl @ ''[a]'' @ nl @ ''x=1'' @ nl @ ''[b] : e, a'' @ nl"

definition empty_first_base_model :: CFGParser where
  "empty_first_base_model =
     \<lparr>section_data =
        [''e'' \<mapsto> \<lparr>inheritances = [], attributes = [], values = [''x'' \<mapsto> []]\<rparr>,
         ''a'' \<mapsto> \<lparr>inheritances = [], attributes = [], values = [''x'' \<mapsto> ''1'']\<rparr>,
         ''b'' \<mapsto> \<lparr>inheritances = [''e'', ''a''], attributes = [], values = Map.empty\<rparr>],
      msg_functor = Some [], current_file = ''f'', base_path = []\<rparr>"

text \<open>A key assigned twice in one section.\<close>

definition twice_input :: string where
  "twice_input = ''[a]'' @ nl @ ''x=1'' @ nl @ ''x=2'' @ nl"

definition twice_model :: CFGParser where
  "twice_model =
     \<lparr>section_data = [''a'' \<mapsto> \<lparr>inheritances = [], attributes = [], values = [''x'' \<mapsto> ''2'']\<rparr>],
      msg_functor = Some [''Error at line '' @ [CHR 0x27] @ ''3'' @ [CHR 0x27] @ '', character at '' @
         [CHR 0x27] @ ''2'' @ [CHR 0x27] @ '' : Section '' @ [CHR 0x22] @ ''a'' @ [CHR 0x22] @ '' key '' @
         [CHR 0x22] @ ''x'' @ [CHR 0x22] @ '' already exist.''],
      current_file = ''f'', base_path = []\<rparr>"

text \<open>Scenario S4 of the specification.\<close>

definition array_input :: string where
  "array_input = ''[t]'' @ nl @ ''arr = 1,2,3'' @ nl"

definition array_model :: CFGParser where
  "array_model =
     \<lparr>section_data = [''t'' \<mapsto> \<lparr>inheritances = [], attributes = [], values = [''arr'' \<mapsto> ''1,2,3'']\<rparr>],
      msg_functor = Some [], current_file = ''f'', base_path = []\<rparr>"

subsection \<open>Character classes\<close>

text \<open>
  The characters that have a case label of their own in the switch, the others (which take
  the default case), and the two characters of the space case.
\<close>

definition case_label :: "char \<Rightarrow> bool" where
  "case_label c =
     (c = CHR '';'' \<or> c = CHR ''|'' \<or> c = CHR '' '' \<or> c = CHR 0x09 \<or> c = CHR 0x5C \<or> c = CHR 0x22
      \<or> c = CHR ''#'' \<or> c = CHR 0x0A \<or> c = CHR ''<'' \<or> c = CHR ''>'' \<or> c = CHR ''['' \<or> c = CHR '']''
      \<or> c = CHR '','' \<or> c = CHR '':'' \<or> c = CHR ''='')"

definition plain :: "char \<Rightarrow> bool" where
  "plain c = (\<not> case_label c)"

definition blank :: "char \<Rightarrow> bool" where
  "blank c = (c = CHR '' '' \<or> c = CHR 0x09)"

subsection \<open>Messages\<close>

definition open_failure_msg :: "string \<Rightarrow> string" where
  "open_failure_msg file_path = ''Cannot open file '' @ [CHR 0x22] @ file_path @ [CHR 0x22] @ ''.''"

subsection \<open>More example files\<close>

text \<open>A parser that has loaded the file \<open>a.cfg\<close> with the contents \<open>[a]\<close>, \<open>x=1\<close>.\<close>

definition loaded_a_cfg :: CFGParser where
  "loaded_a_cfg =
     \<lparr>section_data = [''a'' \<mapsto> \<lparr>inheritances = [], attributes = [], values = [''x'' \<mapsto> ''1'']\<rparr>],
      msg_functor = Some [], current_file = ''a.cfg'', base_path = []\<rparr>"

text \<open>A key with a space in the middle.\<close>

definition space_key_input :: string where
  "space_key_input = ''[a]'' @ nl @ ''k v = 1'' @ nl"

definition space_key_model :: CFGParser where
  "space_key_model =
     \<lparr>section_data = [''a'' \<mapsto> \<lparr>inheritances = [], attributes = [], values = [''kv'' \<mapsto> ''1'']\<rparr>],
      msg_functor = Some [], current_file = ''f'', base_path = []\<rparr>"

text \<open>The locals in the middle of a key, with the flag off.\<close>

definition in_key_flag_off :: locals where
  "in_key_flag_off = locals_init\<lparr>parse_action := KEY, key := ''k'', ignore_current_spaces := False\<rparr>"

subsection \<open>Assignment lines\<close>

text \<open>
  An assignment line is a key part, \<open>=\<close>, a value part and a newline. The key part is made
  of default-case characters and blanks, with at least one default-case character. The value
  part is either bare (default-case characters, blanks and commas: a token or a list) or a
  double-quoted string with the four escape sequences of the format, which may span lines,
  between optional blanks. \<open>idle\<close> holds of the locals at the start of a line when no section
  is active.
\<close>

definition key_part :: "string \<Rightarrow> bool" where
  "key_part l = (list_all (\<lambda>c. plain c \<or> blank c) l \<and> list_ex plain l)"

definition bare_value :: "string \<Rightarrow> bool" where
  "bare_value r = list_all (\<lambda>c. plain c \<or> blank c \<or> c = CHR '','') r"

fun string_body :: "string \<Rightarrow> bool" where
  "string_body [] = False"
| "string_body (c # cs) =
     (if c = CHR 0x22 then list_all blank cs
      else if c = CHR 0x5C then
        (case cs of
           [] \<Rightarrow> False
         | d # ds \<Rightarrow> (d = CHR 0x5C \<or> d = CHR ''n'' \<or> d = CHR 0x22 \<or> d = CHR 0x27) \<and> string_body ds)
      else string_body cs)"

definition quoted_value :: "string \<Rightarrow> bool" where
  "quoted_value r = (case dropWhile blank r of [] \<Rightarrow> False | c # cs \<Rightarrow> c = CHR 0x22 \<and> string_body cs)"

definition value_part :: "string \<Rightarrow> bool" where
  "value_part r = (bare_value r \<or> quoted_value r)"

definition assignment_line :: "string \<times> string \<Rightarrow> string" where
  "assignment_line lr = fst lr @ ''='' @ snd lr @ nl"

definition idle :: "locals \<Rightarrow> bool" where
  "idle ls = (section_ptr ls = None \<and> parse_action ls = NEW_LINE \<and> ignore_current_spaces ls)"

subsection \<open>A duplicate section header\<close>

definition already_exist_msg :: "string \<Rightarrow> string" where
  "already_exist_msg name = ''Section '' @ [CHR 0x22] @ name @ [CHR 0x22] @ '' already exist.''"

definition duplicate_input :: string where
  "duplicate_input = ''[a]'' @ nl @ ''x=1'' @ nl @ ''[a]'' @ nl @ ''x=2'' @ nl"

definition duplicate_model :: CFGParser where
  "duplicate_model =
     \<lparr>section_data = [''a'' \<mapsto> \<lparr>inheritances = [], attributes = [], values = [''x'' \<mapsto> ''1'']\<rparr>],
      msg_functor = Some [''Error at line '' @ [CHR 0x27] @ ''3'' @ [CHR 0x27] @ '', character at '' @
         [CHR 0x27] @ ''3'' @ [CHR 0x27] @ '' : '' @ already_exist_msg ''a''],
      current_file = ''f'', base_path = []\<rparr>"

text \<open>
  What may follow the closing bracket of a header: spaces, then \<open>:\<close> and a list of names, then
  \<open>=\<close> and a list of attributes, each of them optional. A list is any text made of ordinary
  characters, spaces and commas.
\<close>

definition lists_text :: "string option \<Rightarrow> string option \<Rightarrow> string" where
  "lists_text inh attrs =
     (case inh of None \<Rightarrow> [] | Some s \<Rightarrow> '':'' @ s) @ (case attrs of None \<Rightarrow> [] | Some s \<Rightarrow> ''='' @ s)"

definition list_ok :: "string option \<Rightarrow> bool" where
  "list_ok l = (case l of None \<Rightarrow> True | Some s \<Rightarrow> list_all (\<lambda>c. plain c \<or> blank c \<or> c = CHR '','') s)"

text \<open>A duplicate header that carries an inheritance list and an attribute.\<close>

definition duplicate_lists_input :: string where
  "duplicate_lists_input = ''[b]'' @ nl @ ''[a]'' @ nl @ ''x=1'' @ nl @ ''[a] : b = t'' @ nl @ ''x=2'' @ nl"

definition duplicate_lists_model :: CFGParser where
  "duplicate_lists_model =
     \<lparr>section_data =
        [''b'' \<mapsto> Section_new,
         ''a'' \<mapsto> \<lparr>inheritances = [], attributes = [], values = [''x'' \<mapsto> ''1'']\<rparr>],
      msg_functor = Some [''Error at line '' @ [CHR 0x27] @ ''4'' @ [CHR 0x27] @ '', character at '' @
         [CHR 0x27] @ ''3'' @ [CHR 0x27] @ '' : '' @ already_exist_msg ''a''],
      current_file = ''f'', base_path = []\<rparr>"

text \<open>The locals after the two lines \<open>[a]\<close>, \<open>x=1\<close>.\<close>

definition after_first_block :: locals where
  "after_first_block =
     locals_init\<lparr>section := ''a'', section_ptr := Some ''a'', line := 3, character_pos := 1\<rparr>"

text \<open>Three assignment lines: a token, a list, and a quoted string with a bracket and an escape.\<close>

definition orphan_lines :: "(string \<times> string) list" where
  "orphan_lines =
     [(''x '', '' 1''), (''list'', ''1,2''),
      (''s '', '' '' @ [CHR 0x22] @ ''a]b'' @ [CHR 0x5C, CHR ''n''] @ ''c'' @ [CHR 0x22])]"

subsection \<open>The parser without its counters and messages\<close>

text \<open>
  Two runs of the parser are compared up to the line and column counters of the locals and
  up to the messages the functor has received: \<open>core\<close> and \<open>model_of\<close> forget them. What is
  left of the parser is its model: the section map, the current file and the base path.
  \<open>inc_rel\<close> relates two include functions that agree up to messages; \<open>at_line_start\<close> says
  that a run of the loop, if it returns, has not met the end of the file and is in state
  NEW_LINE with the flag set; \<open>same_effect X Y\<close> says that reading \<open>X\<close> or \<open>Y\<close> at the start of
  a line leaves the parser in the same state up to the counters. \<open>finish\<close> is the end of
  \<open>load_file\<close>: the last run of the loop body on the end-of-file character.
\<close>

definition core :: "locals \<Rightarrow> locals" where
  "core ls = ls\<lparr>line := 0, character_pos := 0\<rparr>"

definition model_of :: "CFGParser \<Rightarrow> CFGParser" where
  "model_of P = P\<lparr>msg_functor := None\<rparr>"

definition norm :: "locals \<times> CFGParser \<Rightarrow> locals \<times> CFGParser" where
  "norm r = (core (fst r), model_of (snd r))"

definition norm3 :: "locals \<times> CFGParser \<times> bool \<Rightarrow> locals \<times> CFGParser \<times> bool" where
  "norm3 r = (core (fst r), model_of (fst (snd r)), snd (snd r))"

definition inc_rel :: "(string \<Rightarrow> CFGParser \<Rightarrow> CFGParser option) \<Rightarrow> (string \<Rightarrow> CFGParser \<Rightarrow> CFGParser option) \<Rightarrow> bool" where
  "inc_rel inc1 inc2 =
     (\<forall>q P P'. model_of P = model_of P' \<longrightarrow> map_option model_of (inc1 q P) = map_option model_of (inc2 q P'))"

definition at_line_start :: "(locals \<times> CFGParser \<times> bool) option \<Rightarrow> bool" where
  "at_line_start r =
     (case r of
        None \<Rightarrow> True
      | Some (ls, P, eof) \<Rightarrow> \<not> eof \<and> parse_action ls = NEW_LINE \<and> ignore_current_spaces ls)"

definition same_effect :: "string \<Rightarrow> string \<Rightarrow> bool" where
  "same_effect X Y =
     (\<forall>inc ls P. parse_action ls = NEW_LINE \<and> ignore_current_spaces ls \<longrightarrow>
        (\<exists>l1 l2. core l1 = core l2
           \<and> (\<forall>rest. load_loop inc ls P (X @ rest) = load_loop inc l1 P rest)
           \<and> (\<forall>rest. load_loop inc ls P (Y @ rest) = load_loop inc l2 P rest)))"

definition finish :: "(string \<Rightarrow> CFGParser \<Rightarrow> CFGParser option) \<Rightarrow> (locals \<times> CFGParser \<times> bool) option \<Rightarrow> CFGParser option" where
  "finish inc r =
     (case r of
        None \<Rightarrow> None
      | Some (ls, P2, eof) \<Rightarrow>
          if eof then Some P2 else map_option snd (switch_character inc eof_character ls P2))"

subsection \<open>Deleting comments, as the specification words it\<close>

text \<open>
  The text without its comment regions: a region runs from \<open>;\<close> to the end of its line (the
  line break stays), or from \<open>|\<close> to the next \<open>|\<close>.
\<close>

fun strip_comments :: "string \<Rightarrow> string" and skip_line :: "string \<Rightarrow> string" and skip_block :: "string \<Rightarrow> string" where
  "strip_comments [] = []"
| "strip_comments (c # cs) =
     (if c = CHR '';'' then skip_line cs
      else if c = CHR ''|'' then skip_block cs
      else c # strip_comments cs)"
| "skip_line [] = []"
| "skip_line (c # cs) = (if c = CHR 0x0A then c # strip_comments cs else skip_line cs)"
| "skip_block [] = []"
| "skip_block (c # cs) = (if c = CHR ''|'' then strip_comments cs else skip_block cs)"

text \<open>
  Three files with comments: a block comment after a value, a \<open>;\<close> inside a block comment,
  and a \<open>|\<close> inside a line comment; and the four models they and their stripped texts load to.
\<close>

definition comment_after_value :: string where
  "comment_after_value = ''[a]'' @ nl @ ''x=1|c|'' @ nl"

definition semicolon_in_block :: string where
  "semicolon_in_block = ''|;'' @ nl @ ''[a]'' @ nl @ ''|''"

definition bar_in_line_comment :: string where
  "bar_in_line_comment = '';|'' @ nl @ ''[a]'' @ nl"

definition x_empty_model :: CFGParser where
  "x_empty_model =
     \<lparr>section_data = [''a'' \<mapsto> \<lparr>inheritances = [], attributes = [], values = [''x'' \<mapsto> []]\<rparr>],
      msg_functor = Some [], current_file = ''f'', base_path = []\<rparr>"

definition x_one_model :: CFGParser where
  "x_one_model =
     \<lparr>section_data = [''a'' \<mapsto> \<lparr>inheritances = [], attributes = [], values = [''x'' \<mapsto> ''1'']\<rparr>],
      msg_functor = Some [], current_file = ''f'', base_path = []\<rparr>"

definition only_a_model :: CFGParser where
  "only_a_model =
     \<lparr>section_data = [''a'' \<mapsto> \<lparr>inheritances = [], attributes = [], values = Map.empty\<rparr>],
      msg_functor = Some [], current_file = ''f'', base_path = []\<rparr>"

definition no_section_model :: CFGParser where
  "no_section_model =
     \<lparr>section_data = Map.empty, msg_functor = Some [], current_file = ''f'', base_path = []\<rparr>"

subsection \<open>Saving and loading again\<close>

text \<open>A list that names every key of a map once: what an iteration over the map yields.\<close>

definition enumerates :: "'k list \<Rightarrow> ('k \<rightharpoonup> 'v) \<Rightarrow> bool" where
  "enumerates ks m = (distinct ks \<and> set ks = dom m)"

text \<open>
  A model that the written text gives back: names, attributes and keys are non-empty and made
  of characters that are no case label of the switch; values are made of such characters and
  may be empty; a section name is made of such characters.
\<close>

definition name_ok :: "string \<Rightarrow> bool" where
  "name_ok s = (s \<noteq> [] \<and> list_all plain s)"

definition canonical_section :: "Section \<Rightarrow> bool" where
  "canonical_section sec =
     (list_all name_ok (inheritances sec) \<and> list_all name_ok (attributes sec)
      \<and> (\<forall>k v. values sec k = Some v \<longrightarrow> name_ok k \<and> list_all plain v))"

definition canonical :: "CFGParser \<Rightarrow> bool" where
  "canonical P = (\<forall>name sec. section_data P name = Some sec \<longrightarrow> list_all plain name \<and> canonical_section sec)"

text \<open>
  \<^verbatim>\<open>PushInheritance\<close> accepts a base only if its section exists already. \<open>bases_first seen order\<close>
  says that every base of a section is the section itself, or was written before it, or is
  among \<open>seen\<close>.
\<close>

fun bases_first :: "string list \<Rightarrow> string list \<Rightarrow> CFGParser \<Rightarrow> bool" where
  "bases_first seen [] P = True"
| "bases_first seen (name # names) P =
     ((case section_data P name of
         None \<Rightarrow> True
       | Some sec \<Rightarrow> list_all (\<lambda>b. b \<in> set (name # seen)) (inheritances sec))
      \<and> bases_first (name # seen) names P)"

text \<open>The values the specification calls canonical: no comma, no line break, no double quote.\<close>

definition claimed_canonical_value :: "string \<Rightarrow> bool" where
  "claimed_canonical_value v = (CHR '','' \<notin> set v \<and> CHR 0x0A \<notin> set v \<and> CHR 0x22 \<notin> set v)"

text \<open>A value with a space in it, loaded from a quoted value.\<close>

definition space_value_input :: string where
  "space_value_input = ''[s]'' @ nl @ ''k = '' @ [CHR 0x22] @ ''a b'' @ [CHR 0x22] @ nl"

definition space_value_model :: CFGParser where
  "space_value_model =
     \<lparr>section_data = [''s'' \<mapsto> \<lparr>inheritances = [], attributes = [], values = [''k'' \<mapsto> ''a b'']\<rparr>],
      msg_functor = Some [], current_file = ''g'', base_path = []\<rparr>"

definition space_value_keys :: "string \<Rightarrow> string list" where
  "space_value_keys name = [''k'']"

definition space_lost_model :: CFGParser where
  "space_lost_model =
     \<lparr>section_data = [''s'' \<mapsto> \<lparr>inheritances = [], attributes = [], values = [''k'' \<mapsto> ''ab'']\<rparr>],
      msg_functor = Some [], current_file = ''f'', base_path = []\<rparr>"

text \<open>A section whose base comes later in the order of the iteration.\<close>

definition base_later_input :: string where
  "base_later_input = ''[b]'' @ nl @ ''[a] : b'' @ nl"

definition base_later_model :: CFGParser where
  "base_later_model =
     \<lparr>section_data = [''b'' \<mapsto> Section_new,
                      ''a'' \<mapsto> \<lparr>inheritances = [''b''], attributes = [], values = Map.empty\<rparr>],
      msg_functor = Some [], current_file = ''g'', base_path = []\<rparr>"

definition no_keys :: "string \<Rightarrow> string list" where
  "no_keys name = []"

definition base_lost_model :: CFGParser where
  "base_lost_model =
     \<lparr>section_data = [''a'' \<mapsto> Section_new, ''b'' \<mapsto> Section_new],
      msg_functor = Some [''Error at line '' @ [CHR 0x27] @ ''1'' @ [CHR 0x27] @ '', character at '' @
         [CHR 0x27] @ ''7'' @ [CHR 0x27] @ '' : Inherited section '' @ [CHR 0x22] @ ''b'' @ [CHR 0x22] @
         '' is not exist!''],
      current_file = ''f'', base_path = []\<rparr>"

text \<open>Two sections with an inheritance list, attributes, and an empty value.\<close>

definition round_trip_model :: CFGParser where
  "round_trip_model =
     \<lparr>section_data =
        [''b'' \<mapsto> \<lparr>inheritances = [], attributes = [], values = [''p'' \<mapsto> ''1'']\<rparr>,
         ''a'' \<mapsto> \<lparr>inheritances = [''b'', ''a''], attributes = [''x'', ''y''],
                      values = [''k'' \<mapsto> ''v'', ''e'' \<mapsto> []]\<rparr>],
      msg_functor = Some [], current_file = [], base_path = []\<rparr>"

definition round_trip_keys :: "string \<Rightarrow> string list" where
  "round_trip_keys name = (if name = ''a'' then [''e'', ''k''] else [''p''])"

section \<open>Lemmas\<close>

lemmas load_eval =
  load_file_def CFGParser_new_def locals_init_def nl_def
  switch_character_def next_pos_def eof_character_def
  case_comment_character_def case_comment_multiline_def case_space_def space_error_def
  case_backslash_def escape_def case_quote_def case_hash_def case_newline_def newline_reset_def
  commit_value_def case_lt_def case_gt_def IncludeFile_def case_open_bracket_def
  case_close_bracket_def case_comma_def case_colon_def case_equals_def emplace_key_def
  case_default_def PushInheritance_def PushAttribute_def at_section_ptr_def Section_new_def
  msg_def call_msg_functor_def GetErrorLineString_def to_string.simps digit_char_def load_loop.simps

lemma getValueFromInheritance_loop_first:
  "getValueFromInheritance_loop sd bases K =
     (case first_base_binding sd bases K of Some v \<Rightarrow> v | None \<Rightarrow> [])"
  by (induction bases)
     (auto simp: first_base_binding_def binds_key_def split: option.splits)

lemma getString_cases:
  "getString P S K d =
     (case section_data P S of
        None \<Rightarrow> d
      | Some sec \<Rightarrow>
          (case values sec K of
             Some v \<Rightarrow> v
           | None \<Rightarrow>
               (case first_base_binding (section_data P) (inheritances sec) K of
                  Some v \<Rightarrow> if v \<noteq> [] then v else d
                | None \<Rightarrow> d)))"
  by (simp add: getString_def getValueFromInheritance_def getValueFromInheritance_loop_first
        split: option.splits)

lemma segments_not_Nil: "segments cs \<noteq> []"
  by (induction cs) (auto split: list.splits)

lemma join_segments: "join_commas (segments cs) = cs"
proof (induction cs)
  case Nil
  show ?case by simp
next
  case (Cons c cs)
  obtain s ss where seg: "segments cs = s # ss"
    using segments_not_Nil [of cs] by (cases "segments cs") auto
  show ?case
  proof (cases "c = CHR '',''")
    case True
    with Cons seg show ?thesis by simp
  next
    case False
    with Cons seg show ?thesis by (cases ss) auto
  qed
qed

lemma segments_no_comma: "s \<in> set (segments cs) \<Longrightarrow> CHR '','' \<notin> set s"
  by (induction cs arbitrary: s) (auto split: list.splits if_splits)

lemma getArray_loop_segments:
  "getArray_loop mk res acc cs =
     (case coerce_all mk (case segments cs of s # ss \<Rightarrow> (acc @ s) # ss | [] \<Rightarrow> [acc]) of
        Inl e \<Rightarrow> Inl e
      | Inr vs \<Rightarrow> Inr (res @ vs))"
proof (induction cs arbitrary: res acc)
  case Nil
  show ?case by (simp split: sum.splits)
next
  case (Cons c cs)
  obtain s ss where seg: "segments cs = s # ss"
    using segments_not_Nil [of cs] by (cases "segments cs") auto
  show ?case
    using seg by (simp add: Cons split: sum.splits)
qed

lemma stoi_digits: "stoi ''1'' = Inr 1" "stoi ''2'' = Inr 2" "stoi ''3'' = Inr 3"
  by (simp_all add: stoi_def is_space_def is_digit_def digits_val_def digit_val_def)

subsection \<open>The switch, character by character\<close>

lemma switch_on:
  "switch_character inc (CHR '';'') ls P = Some (case_comment_character (CHR '';'') ls P)"
  "switch_character inc (CHR ''|'') ls P = Some (case_comment_multiline (CHR ''|'') ls P)"
  "switch_character inc (CHR '' '') ls P = Some (case_space (CHR '' '') ls P)"
  "switch_character inc (CHR 0x09) ls P = Some (case_space (CHR 0x09) ls P)"
  "switch_character inc (CHR 0x5C) ls P = Some (case_backslash ls P)"
  "switch_character inc (CHR 0x22) ls P = Some (case_quote ls P)"
  "switch_character inc (CHR ''#'') ls P = Some (case_hash (CHR ''#'') ls P)"
  "switch_character inc (CHR 0x0A) ls P = Some (case_newline ls P)"
  "switch_character inc (CHR ''<'') ls P = Some (case_lt (CHR ''<'') ls P)"
  "switch_character inc (CHR ''>'') ls P = case_gt inc (CHR ''>'') ls P"
  "switch_character inc (CHR ''['') ls P = Some (case_open_bracket (CHR ''['') ls P)"
  "switch_character inc (CHR '']'') ls P = Some (case_close_bracket (CHR '']'') ls P)"
  "switch_character inc (CHR '','') ls P = Some (case_comma (CHR '','') ls P)"
  "switch_character inc (CHR '':'') ls P = Some (case_colon (CHR '':'') ls P)"
  "switch_character inc (CHR ''='') ls P = Some (case_equals (CHR ''='') ls P)"
  by (simp_all add: switch_character_def)

lemma switch_plain: "plain c \<Longrightarrow> switch_character inc c ls P = Some (case_default c ls P)"
  by (simp add: plain_def case_label_def switch_character_def)

lemma switch_blank: "blank c \<Longrightarrow> switch_character inc c ls P = Some (case_space c ls P)"
  by (auto simp: blank_def switch_on)

lemma plain_not_backslash: "plain c \<Longrightarrow> c \<noteq> CHR 0x5C"
  by (auto simp: plain_def case_label_def)

lemma blank_not_backslash: "blank c \<Longrightarrow> c \<noteq> CHR 0x5C"
  by (auto simp: blank_def)

lemma case_label_cases:
  assumes "case_label c"
  shows "c = CHR '';'' \<or> c = CHR ''|'' \<or> c = CHR '' '' \<or> c = CHR 0x09 \<or> c = CHR 0x5C \<or> c = CHR 0x22
      \<or> c = CHR ''#'' \<or> c = CHR 0x0A \<or> c = CHR ''<'' \<or> c = CHR ''>'' \<or> c = CHR ''['' \<or> c = CHR '']''
      \<or> c = CHR '','' \<or> c = CHR '':'' \<or> c = CHR ''=''"
  using assms by (simp only: case_label_def)

subsection \<open>The space flag\<close>

lemma flag_kept [simp]:
  "ignore_current_spaces (fst (case_comment_character c ls P)) = ignore_current_spaces ls"
  "ignore_current_spaces (fst (case_comment_multiline c ls P)) = ignore_current_spaces ls"
  "ignore_current_spaces (fst (case_space c ls P)) = ignore_current_spaces ls"
  "ignore_current_spaces (fst (case_backslash ls P)) = ignore_current_spaces ls"
  "ignore_current_spaces (fst (case_quote ls P)) = ignore_current_spaces ls"
  "ignore_current_spaces (fst (case_hash c ls P)) = ignore_current_spaces ls"
  "ignore_current_spaces (fst (case_lt c ls P)) = ignore_current_spaces ls"
  "ignore_current_spaces (fst (case_comma c ls P)) = ignore_current_spaces ls"
  "ignore_current_spaces (fst (case_colon c ls P)) = ignore_current_spaces ls"
  "ignore_current_spaces (fst (case_equals c ls P)) = ignore_current_spaces ls"
  "ignore_current_spaces (fst (case_default c ls P)) = ignore_current_spaces ls"
  "ignore_current_spaces (fst (escape c ls P)) = ignore_current_spaces ls"
  by (simp_all add: case_comment_character_def case_comment_multiline_def case_space_def space_error_def
      case_backslash_def case_quote_def case_hash_def case_lt_def case_comma_def case_colon_def
      case_equals_def case_default_def escape_def PushInheritance_def PushAttribute_def
      split: ParseAction.splits option.splits prod.splits)

lemma flag_gt:
  "case_gt inc c ls P = Some (ls', P') \<Longrightarrow> ignore_current_spaces ls' = ignore_current_spaces ls"
  by (auto simp: case_gt_def split: ParseAction.splits option.splits)

lemma flag_newline: "ignore_current_spaces (fst (case_newline ls P))"
  by (simp add: case_newline_def newline_reset_def split: prod.splits)

lemma flag_open:
  "ignore_current_spaces (fst (case_open_bracket c ls P)) =
     (ignore_current_spaces ls \<and> parse_action ls \<noteq> NEW_LINE)"
  by (simp add: case_open_bracket_def split: ParseAction.splits)

lemma flag_close:
  "ignore_current_spaces (fst (case_close_bracket c ls P)) =
     (ignore_current_spaces ls \<or> parse_action ls = SECTION)"
  by (simp add: case_close_bracket_def split: ParseAction.splits)

lemma flag_switch:
  assumes "switch_character inc c ls P = Some (ls', P')"
  shows "ignore_current_spaces ls' =
          (if c = CHR 0x0A then True
           else if c = CHR ''['' then ignore_current_spaces ls \<and> parse_action ls \<noteq> NEW_LINE
           else if c = CHR '']'' then ignore_current_spaces ls \<or> parse_action ls = SECTION
           else ignore_current_spaces ls)"
proof (cases "case_label c")
  case False
  then have "ls' = fst (case_default c ls P)"
    using assms by (simp add: switch_plain plain_def)
  moreover have "c \<noteq> CHR 0x0A" "c \<noteq> CHR ''[''" "c \<noteq> CHR '']''"
    using False by (auto simp: case_label_def)
  ultimately show ?thesis by simp
next
  case True
  from case_label_cases [OF True] show ?thesis
  proof (elim disjE, goal_cases)
    case 1 with assms have "ls' = fst (case_comment_character c ls P)" by (simp add: switch_on)
    with 1 show ?thesis by simp
  next
    case 2 with assms have "ls' = fst (case_comment_multiline c ls P)" by (simp add: switch_on)
    with 2 show ?thesis by simp
  next
    case 3 with assms have "ls' = fst (case_space c ls P)" by (simp add: switch_on)
    with 3 show ?thesis by simp
  next
    case 4 with assms have "ls' = fst (case_space c ls P)" by (simp add: switch_on)
    with 4 show ?thesis by simp
  next
    case 5 with assms have "ls' = fst (case_backslash ls P)" by (simp add: switch_on)
    with 5 show ?thesis by simp
  next
    case 6 with assms have "ls' = fst (case_quote ls P)" by (simp add: switch_on)
    with 6 show ?thesis by simp
  next
    case 7 with assms have "ls' = fst (case_hash c ls P)" by (simp add: switch_on)
    with 7 show ?thesis by simp
  next
    case 8 with assms have "ls' = fst (case_newline ls P)" by (simp add: switch_on)
    with 8 show ?thesis by (simp add: flag_newline)
  next
    case 9 with assms have "ls' = fst (case_lt c ls P)" by (simp add: switch_on)
    with 9 show ?thesis by simp
  next
    case 10 with assms have "case_gt inc c ls P = Some (ls', P')" by (simp add: switch_on)
    with 10 show ?thesis by (simp add: flag_gt)
  next
    case 11 with assms have "ls' = fst (case_open_bracket c ls P)" by (simp add: switch_on)
    with 11 show ?thesis by (simp add: flag_open)
  next
    case 12 with assms have "ls' = fst (case_close_bracket c ls P)" by (simp add: switch_on)
    with 12 show ?thesis by (simp add: flag_close)
  next
    case 13 with assms have "ls' = fst (case_comma c ls P)" by (simp add: switch_on)
    with 13 show ?thesis by simp
  next
    case 14 with assms have "ls' = fst (case_colon c ls P)" by (simp add: switch_on)
    with 14 show ?thesis by simp
  next
    case 15 with assms have "ls' = fst (case_equals c ls P)" by (simp add: switch_on)
    with 15 show ?thesis by simp
  qed
qed

lemma space_in_word_states:
  assumes "c = CHR '' '' \<or> c = CHR 0x09"
    and "parse_action ls \<in> {SECTION, INHERITANCE, ATTRIBUTE, KEY, VALUE}"
  shows "switch_character inc c ls P =
           Some (if ignore_current_spaces ls then (ls, P)
                 else (ls\<lparr>parse_action := ERROR\<rparr>, msg ls ''Space in wrong place'' P))"
  using assms by (auto simp: switch_on case_space_def space_error_def)

subsection \<open>A file that cannot be opened\<close>

lemma load_open_failure:
  "fs file_path = None \<Longrightarrow>
   load depth fs file_path P =
     Some (call_msg_functor (open_failure_msg file_path) (P\<lparr>current_file := file_path\<rparr>))"
  by (cases depth) (simp_all add: load_file_def open_failure_msg_def)

subsection \<open>Running the loop over parts of a line\<close>

lemma load_loop_step:
  "c \<noteq> CHR 0x5C \<or> parse_action ls \<noteq> STRING_VALUE \<Longrightarrow>
   load_loop inc ls P (c # cs) =
     (case switch_character inc c ls P of
        None \<Rightarrow> None
      | Some (ls', P') \<Rightarrow> load_loop inc (next_pos ls') P' cs)"
  by auto

lemma load_loop_escape:
  "parse_action ls = STRING_VALUE \<Longrightarrow>
   load_loop inc ls P (CHR 0x5C # d # ds) =
     (case escape d ls P of (ls', P') \<Rightarrow> load_loop inc (next_pos ls') P' ds)"
  by simp

declare load_loop.simps(2) [simp del]

lemma loop_blanks:
  assumes "list_all blank cs"
    and "ignore_current_spaces ls \<or> parse_action ls \<notin> {ATTRIBUTE, INHERITANCE, KEY, SECTION, VALUE}"
    and "parse_action ls \<noteq> STRING_VALUE" and "parse_action ls \<noteq> PREPROCESSOR"
  shows "load_loop inc ls P (cs @ rest) =
         load_loop inc (ls\<lparr>character_pos := character_pos ls + of_nat (length cs)\<rparr>) P rest"
  using assms
proof (induction cs arbitrary: ls)
  case Nil
  show ?case by simp
next
  case (Cons c cs)
  from Cons.prems have sw: "switch_character inc c ls P = Some (ls, P)"
    by (auto simp: switch_blank case_space_def space_error_def split: ParseAction.splits)
  show ?case
    using Cons.prems Cons.IH [of "next_pos ls"]
    by (simp add: load_loop_step sw next_pos_def add.assoc)
qed

lemma loop_key_part:
  assumes "list_all (\<lambda>c. plain c \<or> blank c) cs"
    and "ignore_current_spaces ls"
    and "parse_action ls = NEW_LINE \<or> parse_action ls = KEY"
  shows "load_loop inc ls P (cs @ rest) =
         load_loop inc (ls\<lparr>parse_action := (if list_ex plain cs then KEY else parse_action ls),
                            key := key ls @ filter plain cs,
                            character_pos := character_pos ls + of_nat (length cs)\<rparr>) P rest"
  using assms
proof (induction cs arbitrary: ls)
  case Nil
  show ?case by simp
next
  case (Cons c cs)
  show ?case
  proof (cases "plain c")
    case True
    then have sw: "switch_character inc c ls P = Some (ls\<lparr>parse_action := KEY, key := key ls @ [c]\<rparr>, P)"
      using Cons.prems by (auto simp: switch_plain case_default_def)
    show ?thesis
      using Cons.prems True plain_not_backslash [OF True]
        Cons.IH [of "next_pos (ls\<lparr>parse_action := KEY, key := key ls @ [c]\<rparr>)"]
      by (simp add: load_loop_step sw next_pos_def add.assoc)
  next
    case False
    then have b: "blank c" using Cons.prems by simp
    then have sw: "switch_character inc c ls P = Some (ls, P)"
      using Cons.prems by (auto simp: switch_blank case_space_def space_error_def)
    show ?thesis
      using Cons.prems False blank_not_backslash [OF b] Cons.IH [of "next_pos ls"]
      by (simp add: load_loop_step sw next_pos_def add.assoc)
  qed
qed

lemma blank_not_plain: "blank c \<Longrightarrow> \<not> plain c"
  by (auto simp: blank_def plain_def case_label_def)

lemma comma_not_plain: "\<not> plain (CHR '','')"
  by (simp add: plain_def case_label_def)

lemma loop_value_part:
  assumes "list_all (\<lambda>c. plain c \<or> blank c \<or> c = CHR '','') cs"
    and "ignore_current_spaces ls"
    and "parse_action ls = VALUE \<or> parse_action ls = VALUE_ARRAY"
  shows "load_loop inc ls P (cs @ rest) =
         load_loop inc (ls\<lparr>parse_action := (if CHR '','' \<in> set cs then VALUE_ARRAY else parse_action ls),
                            value := value ls @ filter (\<lambda>c. \<not> blank c) cs,
                            character_pos := character_pos ls + of_nat (length cs)\<rparr>) P rest"
  using assms
proof (induction cs arbitrary: ls)
  case Nil
  show ?case by simp
next
  case (Cons c cs)
  consider (p) "plain c" | (b) "blank c" | (k) "c = CHR '',''"
    using Cons.prems by auto
  then show ?case
  proof cases
    case p
    then have sw: "switch_character inc c ls P = Some (ls\<lparr>value := value ls @ [c]\<rparr>, P)"
      using Cons.prems by (auto simp: switch_plain case_default_def)
    have nb: "\<not> blank c" "c \<noteq> CHR '',''"
      using p blank_not_plain comma_not_plain by auto
    show ?thesis
      using Cons.prems nb plain_not_backslash [OF p]
        Cons.IH [of "next_pos (ls\<lparr>value := value ls @ [c]\<rparr>)"]
      by (simp add: load_loop_step sw next_pos_def add.assoc)
  next
    case b
    then have sw: "switch_character inc c ls P = Some (ls, P)"
      using Cons.prems by (auto simp: switch_blank case_space_def space_error_def)
    have nk: "c \<noteq> CHR '',''" using b by (auto simp: blank_def)
    show ?thesis
      using Cons.prems b nk blank_not_backslash [OF b] Cons.IH [of "next_pos ls"]
      by (simp add: load_loop_step sw next_pos_def add.assoc)
  next
    case k
    have sw: "switch_character inc (CHR '','') ls P =
        Some (ls\<lparr>parse_action := VALUE_ARRAY, value := value ls @ '',''\<rparr>, P)"
      using Cons.prems by (auto simp: switch_on case_comma_def)
    have nb: "\<not> blank c" using k by (simp add: blank_def)
    show ?thesis
      using Cons.prems k nb
        Cons.IH [of "next_pos (ls\<lparr>parse_action := VALUE_ARRAY, value := value ls @ [c]\<rparr>)"]
      by (simp add: load_loop_step sw next_pos_def add.assoc)
  qed
qed


lemma string_value_char:
  assumes "parse_action ls = STRING_VALUE" and "c \<noteq> CHR 0x22" and "c \<noteq> CHR 0x5C"
  shows "switch_character inc c ls P =
           Some (if c = CHR 0x0A then ls\<lparr>line := line ls + 1, ignore_current_spaces := True\<rparr>
                 else ls\<lparr>value := value ls @ [c]\<rparr>, P)"
proof (cases "case_label c")
  case False
  then have "c \<noteq> CHR 0x0A" by (auto simp: case_label_def)
  then show ?thesis
    using False assms by (simp add: switch_plain plain_def case_default_def)
next
  case True
  from case_label_cases [OF True] show ?thesis
    using assms
    by (elim disjE)
       (simp_all add: switch_on case_comment_character_def case_comment_multiline_def case_space_def
          case_hash_def case_newline_def newline_reset_def case_lt_def case_gt_def
          case_open_bracket_def case_close_bracket_def case_comma_def case_colon_def case_equals_def)
qed

lemma loop_string_body:
  assumes "string_body cs" and "parse_action ls = STRING_VALUE" and "ignore_current_spaces ls"
  shows "\<exists>ls'. (\<forall>rest. load_loop inc ls P (cs @ rest) = load_loop inc ls' P rest)
           \<and> parse_action ls' = VALUE \<and> ignore_current_spaces ls' \<and> section_ptr ls' = section_ptr ls"
  using assms
proof (induction cs arbitrary: ls rule: string_body.induct)
  case 1
  then show ?case by simp
next
  case (2 c cs)
  show ?case
  proof (cases "c = CHR 0x22")
    case True
    with "2.prems" have bl: "list_all blank cs" by simp
    have "\<forall>rest. load_loop inc ls P ((c # cs) @ rest) =
            load_loop inc (ls\<lparr>parse_action := VALUE, character_pos := character_pos ls + 1 + of_nat (length cs)\<rparr>) P rest"
      using True "2.prems"(2,3) loop_blanks [OF bl, of "next_pos (ls\<lparr>parse_action := VALUE\<rparr>)" inc P]
      by (simp add: load_loop_step switch_on case_quote_def next_pos_def)
    then show ?thesis
      using "2.prems" by (intro exI [of _ "ls\<lparr>parse_action := VALUE, character_pos := character_pos ls + 1 + of_nat (length cs)\<rparr>"]) simp
  next
    case nq: False
    show ?thesis
    proof (cases "c = CHR 0x5C")
      case True
      with nq "2.prems" obtain d ds where cs: "cs = d # ds"
        and d: "d = CHR 0x5C \<or> d = CHR ''n'' \<or> d = CHR 0x22 \<or> d = CHR 0x27" and body: "string_body ds"
        by (auto split: list.splits)
      from d obtain v where esc: "escape d ls P = (ls\<lparr>value := v\<rparr>, P)"
        by (auto simp: escape_def)
      from "2.IH"(1) [OF nq True cs body, of "next_pos (ls\<lparr>value := v\<rparr>)"] "2.prems"(2,3) d
      obtain ls' where "\<forall>rest. load_loop inc (next_pos (ls\<lparr>value := v\<rparr>)) P (ds @ rest) = load_loop inc ls' P rest"
        and "parse_action ls' = VALUE" "ignore_current_spaces ls'" "section_ptr ls' = section_ptr ls"
        by (auto simp: next_pos_def)
      then show ?thesis
        using True cs "2.prems"(2) esc
        by (intro exI [of _ ls']) (simp add: load_loop_escape)
    next
      case nb: False
      define ls1 where "ls1 = next_pos (if c = CHR 0x0A then ls\<lparr>line := line ls + 1, ignore_current_spaces := True\<rparr>
                 else ls\<lparr>value := value ls @ [c]\<rparr>)"
      have st: "\<forall>rest. load_loop inc ls P ((c # cs) @ rest) = load_loop inc ls1 P (cs @ rest)"
        using nq nb "2.prems"(2) by (simp add: load_loop_step string_value_char ls1_def)
      have body: "string_body cs" using nq nb "2.prems"(1) by simp
      have "parse_action ls1 = STRING_VALUE" "ignore_current_spaces ls1" "section_ptr ls1 = section_ptr ls"
        using "2.prems"(2,3) by (simp_all add: ls1_def next_pos_def)
      with "2.IH"(2) [OF nq nb body, of ls1]
      obtain ls' where "\<forall>rest. load_loop inc ls1 P (cs @ rest) = load_loop inc ls' P rest"
        and "parse_action ls' = VALUE" "ignore_current_spaces ls'" "section_ptr ls' = section_ptr ls"
        by auto
      then show ?thesis
        using st by (intro exI [of _ ls']) simp
    qed
  qed
qed


lemma equals_without_section:
  assumes "parse_action ls = KEY" and "section_ptr ls = None"
  shows "load_loop inc ls P (CHR ''='' # rest) =
         load_loop inc (ls\<lparr>parse_action := VALUE, character_pos := character_pos ls + 1\<rparr>) P rest"
  using assms by (simp add: load_loop_step switch_on case_equals_def emplace_key_def next_pos_def)

lemma newline_without_section:
  assumes "parse_action ls = VALUE \<or> parse_action ls = VALUE_ARRAY" and "section_ptr ls = None"
  shows "load_loop inc ls P (CHR 0x0A # rest) =
         load_loop inc (ls\<lparr>key := [], value := [], parse_action := NEW_LINE, line := line ls + 1,
                            ignore_current_spaces := True, character_pos := 1\<rparr>) P rest"
  using assms
  by (auto simp add: load_loop_step switch_on case_newline_def commit_value_def newline_reset_def next_pos_def)

lemma quoted_value_split:
  assumes "quoted_value r"
  obtains bs cs where "r = bs @ CHR 0x22 # cs" and "list_all blank bs" and "string_body cs"
proof -
  from assms obtain cs where d: "dropWhile blank r = CHR 0x22 # cs" and b: "string_body cs"
    by (auto simp: quoted_value_def split: list.splits)
  have "r = takeWhile blank r @ CHR 0x22 # cs"
    using takeWhile_dropWhile_id [of blank r] d by simp
  moreover have "list_all blank (takeWhile blank r)"
    by (simp add: list_all_iff) (meson set_takeWhileD)
  ultimately show ?thesis using b that by blast
qed

lemma assignment_line_idle:
  assumes "idle ls" and "key_part l" and "value_part r"
  shows "\<exists>ls'. idle ls' \<and> (\<forall>rest. load_loop inc ls P (assignment_line (l, r) @ rest) = load_loop inc ls' P rest)"
proof -
  define ls1 where "ls1 = ls\<lparr>parse_action := KEY, key := key ls @ filter plain l,
                            character_pos := character_pos ls + of_nat (length l)\<rparr>"
  define ls2 where "ls2 = ls1\<lparr>parse_action := VALUE, character_pos := character_pos ls1 + 1\<rparr>"
  have s1: "load_loop inc ls P (l @ rest) = load_loop inc ls1 P rest" for rest
    using assms(1,2) loop_key_part [of l ls inc P rest]
    by (simp add: idle_def key_part_def ls1_def)
  have s2: "load_loop inc ls1 P (CHR ''='' # rest) = load_loop inc ls2 P rest" for rest
    using assms(1) equals_without_section [of ls1 inc P rest]
    by (simp add: idle_def ls1_def ls2_def)
  have ls2: "parse_action ls2 = VALUE" "section_ptr ls2 = None" "ignore_current_spaces ls2"
    using assms(1) by (simp_all add: idle_def ls1_def ls2_def)
  have "\<exists>ls3. (parse_action ls3 = VALUE \<or> parse_action ls3 = VALUE_ARRAY) \<and> section_ptr ls3 = None
          \<and> (\<forall>rest. load_loop inc ls2 P (r @ rest) = load_loop inc ls3 P rest)"
  proof (cases "bare_value r")
    case True
    define ls3 where "ls3 = ls2\<lparr>parse_action := (if CHR '','' \<in> set r then VALUE_ARRAY else parse_action ls2),
                            value := value ls2 @ filter (\<lambda>c. \<not> blank c) r,
                            character_pos := character_pos ls2 + of_nat (length r)\<rparr>"
    have "\<forall>rest. load_loop inc ls2 P (r @ rest) = load_loop inc ls3 P rest"
      using True ls2 loop_value_part [of r ls2 inc P] by (simp add: bare_value_def ls3_def)
    moreover have "parse_action ls3 = VALUE \<or> parse_action ls3 = VALUE_ARRAY" "section_ptr ls3 = None"
      using ls2 by (simp_all add: ls3_def)
    ultimately show ?thesis by blast
  next
    case False
    with assms(3) have "quoted_value r" by (simp add: value_part_def)
    then obtain bs cs where r: "r = bs @ CHR 0x22 # cs" and bs: "list_all blank bs" and body: "string_body cs"
      by (rule quoted_value_split)
    define ls2a where "ls2a = ls2\<lparr>character_pos := character_pos ls2 + of_nat (length bs)\<rparr>"
    define ls2b where "ls2b = ls2a\<lparr>parse_action := STRING_VALUE, character_pos := character_pos ls2a + 1\<rparr>"
    have a: "load_loop inc ls2 P (bs @ rest) = load_loop inc ls2a P rest" for rest
      using ls2 loop_blanks [OF bs, of ls2 inc P rest] by (simp add: ls2a_def)
    have b: "load_loop inc ls2a P (CHR 0x22 # rest) = load_loop inc ls2b P rest" for rest
      using ls2 by (simp add: load_loop_step switch_on case_quote_def next_pos_def ls2a_def ls2b_def)
    have "parse_action ls2b = STRING_VALUE" "ignore_current_spaces ls2b"
      using ls2 by (simp_all add: ls2a_def ls2b_def)
    from loop_string_body [OF body this, of inc P]
    obtain ls3 where c: "\<forall>rest. load_loop inc ls2b P (cs @ rest) = load_loop inc ls3 P rest"
      and "parse_action ls3 = VALUE" "section_ptr ls3 = section_ptr ls2b"
      by blast
    moreover have "section_ptr ls2b = None"
      using ls2 by (simp add: ls2a_def ls2b_def)
    moreover have "\<forall>rest. load_loop inc ls2 P (r @ rest) = load_loop inc ls2b P (cs @ rest)"
      using a b by (simp add: r)
    ultimately show ?thesis by (intro exI [of _ ls3]) simp
  qed
  then obtain ls3 where ls3: "parse_action ls3 = VALUE \<or> parse_action ls3 = VALUE_ARRAY" "section_ptr ls3 = None"
    and s3: "\<forall>rest. load_loop inc ls2 P (r @ rest) = load_loop inc ls3 P rest"
    by blast
  define ls4 where "ls4 = ls3\<lparr>key := [], value := [], parse_action := NEW_LINE, line := line ls3 + 1,
                            ignore_current_spaces := True, character_pos := 1\<rparr>"
  have s4: "load_loop inc ls3 P (CHR 0x0A # rest) = load_loop inc ls4 P rest" for rest
    using newline_without_section [OF ls3] by (simp add: ls4_def)
  have "idle ls4"
    using ls3 by (simp add: idle_def ls4_def)
  moreover have "\<forall>rest. load_loop inc ls P (assignment_line (l, r) @ rest) = load_loop inc ls4 P rest"
    using s1 s2 s3 s4 by (simp add: assignment_line_def nl_def)
  ultimately show ?thesis by blast
qed

lemma assignment_lines_idle:
  assumes "idle ls" and "\<forall>lr \<in> set lines. key_part (fst lr) \<and> value_part (snd lr)"
  shows "\<exists>ls'. idle ls' \<and> (\<forall>rest. load_loop inc ls P (concat (map assignment_line lines) @ rest) = load_loop inc ls' P rest)"
  using assms
proof (induction lines arbitrary: ls)
  case Nil
  then show ?case by auto
next
  case (Cons lr lines)
  obtain l r where lr: "lr = (l, r)" by (cases lr)
  with Cons.prems have "key_part l" "value_part r" by auto
  from assignment_line_idle [OF Cons.prems(1) this, of inc P]
  obtain ls1 where "idle ls1" and 1: "\<forall>rest. load_loop inc ls P (assignment_line (l, r) @ rest) = load_loop inc ls1 P rest"
    by blast
  from Cons.IH [OF \<open>idle ls1\<close>] Cons.prems(2)
  obtain ls2 where "idle ls2" and 2: "\<forall>rest. load_loop inc ls1 P (concat (map assignment_line lines) @ rest) = load_loop inc ls2 P rest"
    by auto
  show ?case
    using \<open>idle ls2\<close> 1 2 by (intro exI [of _ ls2]) (simp add: lr)
qed

lemma loop_plain_section:
  assumes "list_all plain cs" and "parse_action ls = SECTION"
  shows "load_loop inc ls P (cs @ rest) =
         load_loop inc (ls\<lparr>section := section ls @ cs,
                            character_pos := character_pos ls + of_nat (length cs)\<rparr>) P rest"
  using assms
proof (induction cs arbitrary: ls)
  case Nil
  show ?case by simp
next
  case (Cons c cs)
  then have p: "plain c" by simp
  show ?case
    using Cons.prems plain_not_backslash [OF p] Cons.IH [of "next_pos (ls\<lparr>section := section ls @ [c]\<rparr>)"]
    by (simp add: load_loop_step switch_plain case_default_def next_pos_def add.assoc)
qed

lemma loop_plain_inheritance:
  assumes "list_all plain cs" and "parse_action ls = INHERITANCE"
  shows "load_loop inc ls P (cs @ rest) =
         load_loop inc (ls\<lparr>inheritance := inheritance ls @ cs,
                            character_pos := character_pos ls + of_nat (length cs)\<rparr>) P rest"
  using assms
proof (induction cs arbitrary: ls)
  case Nil
  show ?case by simp
next
  case (Cons c cs)
  then have p: "plain c" by simp
  show ?case
    using Cons.prems plain_not_backslash [OF p] Cons.IH [of "next_pos (ls\<lparr>inheritance := inheritance ls @ [c]\<rparr>)"]
    by (simp add: load_loop_step switch_plain case_default_def next_pos_def add.assoc)
qed

lemma loop_plain_attribute:
  assumes "list_all plain cs" and "parse_action ls = ATTRIBUTE"
  shows "load_loop inc ls P (cs @ rest) =
         load_loop inc (ls\<lparr>attribute := attribute ls @ cs,
                            character_pos := character_pos ls + of_nat (length cs)\<rparr>) P rest"
  using assms
proof (induction cs arbitrary: ls)
  case Nil
  show ?case by simp
next
  case (Cons c cs)
  then have p: "plain c" by simp
  show ?case
    using Cons.prems plain_not_backslash [OF p] Cons.IH [of "next_pos (ls\<lparr>attribute := attribute ls @ [c]\<rparr>)"]
    by (simp add: load_loop_step switch_plain case_default_def next_pos_def add.assoc)
qed

lemma open_bracket_new_line:
  assumes "parse_action ls = NEW_LINE"
  shows "load_loop inc ls P (CHR ''['' # rest) =
         load_loop inc (ls\<lparr>ignore_current_spaces := False, parse_action := SECTION, section := [],
                            section_ptr := None, character_pos := character_pos ls + 1\<rparr>) P rest"
  using assms by (simp add: load_loop_step switch_on case_open_bracket_def next_pos_def)

lemma close_bracket_duplicate:
  assumes "parse_action ls = SECTION" and "section_data P (section ls) \<noteq> None"
  shows "load_loop inc ls P (CHR '']'' # rest) =
         load_loop inc (ls\<lparr>ignore_current_spaces := True, character_pos := character_pos ls + 1\<rparr>)
           (msg ls (already_exist_msg (section ls)) P) rest"
  using assms by (auto simp add: load_loop_step switch_on case_close_bracket_def next_pos_def already_exist_msg_def)

lemma list_char_no_section:
  assumes "plain c \<or> blank c \<or> c = CHR '',''"
    and "section_ptr ls = None" and "ignore_current_spaces ls"
    and "parse_action ls = INHERITANCE \<or> parse_action ls = ATTRIBUTE"
  shows "\<exists>ls1. switch_character inc c ls P = Some (ls1, P) \<and> section_ptr ls1 = None
           \<and> ignore_current_spaces ls1 \<and> parse_action ls1 = parse_action ls"
proof -
  consider (p) "plain c" | (b) "blank c" | (k) "c = CHR '',''"
    using assms(1) by auto
  then show ?thesis
  proof cases
    case p
    then show ?thesis
      using assms(2-) by (auto simp: switch_plain case_default_def)
  next
    case b
    then show ?thesis
      using assms(2-) by (auto simp: switch_blank case_space_def space_error_def)
  next
    case k
    then show ?thesis
      using assms(2-) by (auto simp: switch_on case_comma_def PushInheritance_def PushAttribute_def)
  qed
qed

lemma loop_lists_no_section:
  assumes "list_all (\<lambda>c. plain c \<or> blank c \<or> c = CHR '','') cs"
    and "section_ptr ls = None" and "ignore_current_spaces ls"
    and "parse_action ls = INHERITANCE \<or> parse_action ls = ATTRIBUTE"
  shows "\<exists>ls'. section_ptr ls' = None \<and> ignore_current_spaces ls' \<and> parse_action ls' = parse_action ls
           \<and> (\<forall>rest. load_loop inc ls P (cs @ rest) = load_loop inc ls' P rest)"
  using assms
proof (induction cs arbitrary: ls)
  case Nil
  then show ?case by auto
next
  case (Cons c cs)
  from Cons.prems have c: "plain c \<or> blank c \<or> c = CHR '',''" and cs: "list_all (\<lambda>c. plain c \<or> blank c \<or> c = CHR '','') cs"
    by simp_all
  from list_char_no_section [OF c Cons.prems(2-4), of inc P]
  obtain ls1 where sw: "switch_character inc c ls P = Some (ls1, P)"
    and 1: "section_ptr ls1 = None" "ignore_current_spaces ls1" "parse_action ls1 = parse_action ls"
    by blast
  have pre: "section_ptr (next_pos ls1) = None" "ignore_current_spaces (next_pos ls1)"
    "parse_action (next_pos ls1) = INHERITANCE \<or> parse_action (next_pos ls1) = ATTRIBUTE"
    using 1 Cons.prems(4) by (simp_all add: next_pos_def)
  from Cons.IH [OF cs pre]
  obtain ls' where 2: "section_ptr ls' = None" "ignore_current_spaces ls'" "parse_action ls' = parse_action (next_pos ls1)"
    and 3: "\<forall>rest. load_loop inc (next_pos ls1) P (cs @ rest) = load_loop inc ls' P rest"
    by blast
  have ns: "c \<noteq> CHR 0x5C \<or> parse_action ls \<noteq> STRING_VALUE"
    using Cons.prems(4) by auto
  have "load_loop inc ls P ((c # cs) @ rest) = load_loop inc ls' P rest" for rest
    using load_loop_step [OF ns, of inc P "cs @ rest"] sw 3 by simp
  moreover have "parse_action ls' = parse_action ls"
    using 2(3) 1(3) by (simp add: next_pos_def)
  ultimately show ?case
    using 2(1,2) by blast
qed

lemma colon_no_section:
  assumes "parse_action ls = SECTION"
  shows "load_loop inc ls P (CHR '':'' # rest) = load_loop inc (next_pos (ls\<lparr>parse_action := INHERITANCE\<rparr>)) P rest"
  using assms by (simp add: load_loop_step switch_on case_colon_def)

lemma equals_no_section:
  assumes "section_ptr ls = None" and "parse_action ls = SECTION \<or> parse_action ls = INHERITANCE"
  shows "load_loop inc ls P (CHR ''='' # rest) = load_loop inc (next_pos (ls\<lparr>parse_action := ATTRIBUTE\<rparr>)) P rest"
  using assms by (auto simp: load_loop_step switch_on case_equals_def PushInheritance_def)

lemma newline_no_section:
  assumes "section_ptr ls = None"
    and "parse_action ls = SECTION \<or> parse_action ls = INHERITANCE \<or> parse_action ls = ATTRIBUTE"
  shows "\<exists>ls'. idle ls' \<and> (\<forall>rest. load_loop inc ls P (nl @ rest) = load_loop inc ls' P rest)"
proof -
  have "load_loop inc ls P (nl @ rest) =
        load_loop inc (next_pos (ls\<lparr>parse_action := NEW_LINE, character_pos := 0, line := line ls + 1,
                                     ignore_current_spaces := True\<rparr>)) P rest" for rest
    using assms
    by (auto simp: nl_def load_loop_step switch_on case_newline_def newline_reset_def
        PushInheritance_def PushAttribute_def)
  moreover have "idle (next_pos (ls\<lparr>parse_action := NEW_LINE, character_pos := 0, line := line ls + 1,
                                     ignore_current_spaces := True\<rparr>))"
    using assms(1) by (simp add: idle_def next_pos_def)
  ultimately show ?thesis by blast
qed

lemma attribute_part_no_section:
  assumes "section_ptr ls = None" and "ignore_current_spaces ls"
    and "parse_action ls = SECTION \<or> parse_action ls = INHERITANCE"
    and "list_ok attrs"
  shows "\<exists>ls'. idle ls' \<and>
           (\<forall>rest. load_loop inc ls P ((case attrs of None \<Rightarrow> [] | Some s \<Rightarrow> ''='' @ s) @ nl @ rest) =
                    load_loop inc ls' P rest)"
proof (cases attrs)
  case None
  from newline_no_section [of ls inc P] assms(1,3)
  show ?thesis
    using None by auto
next
  case (Some s)
  define ls1 where "ls1 = next_pos (ls\<lparr>parse_action := ATTRIBUTE\<rparr>)"
  have s: "list_all (\<lambda>c. plain c \<or> blank c \<or> c = CHR '','') s"
    using assms(4) Some by (simp add: list_ok_def)
  have 1: "load_loop inc ls P (CHR ''='' # rest) = load_loop inc ls1 P rest" for rest
    unfolding ls1_def by (rule equals_no_section [OF assms(1,3)])
  have pre: "section_ptr ls1 = None" "ignore_current_spaces ls1"
    "parse_action ls1 = INHERITANCE \<or> parse_action ls1 = ATTRIBUTE"
    using assms(1,2) by (simp_all add: ls1_def next_pos_def)
  from loop_lists_no_section [OF s pre, of inc P]
  obtain ls2 where 2: "section_ptr ls2 = None" "parse_action ls2 = parse_action ls1"
    and 3: "\<forall>rest. load_loop inc ls1 P (s @ rest) = load_loop inc ls2 P rest"
    by blast
  have "parse_action ls2 = SECTION \<or> parse_action ls2 = INHERITANCE \<or> parse_action ls2 = ATTRIBUTE"
    using 2(2) by (simp add: ls1_def next_pos_def)
  from newline_no_section [OF 2(1) this, of inc P]
  obtain ls3 where "idle ls3" and 4: "\<forall>rest. load_loop inc ls2 P (nl @ rest) = load_loop inc ls3 P rest"
    by blast
  have "load_loop inc ls P ((case attrs of None \<Rightarrow> [] | Some s \<Rightarrow> ''='' @ s) @ nl @ rest) =
        load_loop inc ls3 P rest" for rest
    using 1 [of "s @ nl @ rest"] 3 4 by (simp add: Some)
  with \<open>idle ls3\<close> show ?thesis by blast
qed

lemma header_lists_no_section:
  assumes "parse_action ls = SECTION" and "section_ptr ls = None" and "ignore_current_spaces ls"
    and "list_all blank pad" and "list_ok inh" and "list_ok attrs"
  shows "\<exists>ls'. idle ls' \<and>
           (\<forall>rest. load_loop inc ls P (pad @ lists_text inh attrs @ nl @ rest) = load_loop inc ls' P rest)"
proof -
  define ls0 where "ls0 = ls\<lparr>character_pos := character_pos ls + of_nat (length pad)\<rparr>"
  have 0: "load_loop inc ls P (pad @ rest) = load_loop inc ls0 P rest" for rest
    unfolding ls0_def using assms(1,3,4) by (intro loop_blanks) simp_all
  have p0: "parse_action ls0 = SECTION" "section_ptr ls0 = None" "ignore_current_spaces ls0"
    using assms(1-3) by (simp_all add: ls0_def)
  have "\<exists>ls1. section_ptr ls1 = None \<and> ignore_current_spaces ls1
          \<and> (parse_action ls1 = SECTION \<or> parse_action ls1 = INHERITANCE)
          \<and> (\<forall>rest. load_loop inc ls0 P ((case inh of None \<Rightarrow> [] | Some s \<Rightarrow> '':'' @ s) @ rest) =
                      load_loop inc ls1 P rest)"
  proof (cases inh)
    case None
    then show ?thesis
      using p0 by auto
  next
    case (Some s)
    define la where "la = next_pos (ls0\<lparr>parse_action := INHERITANCE\<rparr>)"
    have s: "list_all (\<lambda>c. plain c \<or> blank c \<or> c = CHR '','') s"
      using assms(5) Some by (simp add: list_ok_def)
    have 1: "load_loop inc ls0 P (CHR '':'' # rest) = load_loop inc la P rest" for rest
      unfolding la_def by (rule colon_no_section [OF p0(1)])
    have pre: "section_ptr la = None" "ignore_current_spaces la"
      "parse_action la = INHERITANCE \<or> parse_action la = ATTRIBUTE"
      using p0 by (simp_all add: la_def next_pos_def)
    from loop_lists_no_section [OF s pre, of inc P]
    obtain lb where 2: "section_ptr lb = None" "ignore_current_spaces lb" "parse_action lb = parse_action la"
      and 3: "\<forall>rest. load_loop inc la P (s @ rest) = load_loop inc lb P rest"
      by blast
    have "parse_action lb = INHERITANCE"
      using 2(3) by (simp add: la_def next_pos_def)
    moreover have "load_loop inc ls0 P ((case inh of None \<Rightarrow> [] | Some s \<Rightarrow> '':'' @ s) @ rest) =
                   load_loop inc lb P rest" for rest
      using 1 [of "s @ rest"] 3 by (simp add: Some)
    ultimately show ?thesis
      using 2(1,2) by blast
  qed
  then obtain ls1 where q: "section_ptr ls1 = None" "ignore_current_spaces ls1"
      "parse_action ls1 = SECTION \<or> parse_action ls1 = INHERITANCE"
    and 1: "\<forall>rest. load_loop inc ls0 P ((case inh of None \<Rightarrow> [] | Some s \<Rightarrow> '':'' @ s) @ rest) =
                      load_loop inc ls1 P rest"
    by blast
  from attribute_part_no_section [OF q assms(6), of inc P]
  obtain ls2 where "idle ls2"
    and 2: "\<forall>rest. load_loop inc ls1 P ((case attrs of None \<Rightarrow> [] | Some s \<Rightarrow> ''='' @ s) @ nl @ rest) =
                    load_loop inc ls2 P rest"
    by blast
  have "load_loop inc ls P (pad @ lists_text inh attrs @ nl @ rest) = load_loop inc ls2 P rest" for rest
  proof -
    have "load_loop inc ls P (pad @ lists_text inh attrs @ nl @ rest) =
          load_loop inc ls0 P ((case inh of None \<Rightarrow> [] | Some s \<Rightarrow> '':'' @ s)
             @ ((case attrs of None \<Rightarrow> [] | Some s \<Rightarrow> ''='' @ s) @ nl @ rest))"
      using 0 [of "lists_text inh attrs @ nl @ rest"] by (simp add: lists_text_def)
    also have "\<dots> = load_loop inc ls1 P ((case attrs of None \<Rightarrow> [] | Some s \<Rightarrow> ''='' @ s) @ nl @ rest)"
      using 1 by blast
    also have "\<dots> = load_loop inc ls2 P rest"
      using 2 by blast
    finally show ?thesis .
  qed
  with \<open>idle ls2\<close> show ?thesis by blast
qed

lemma duplicate_header_lists_idle:
  assumes "parse_action ls = NEW_LINE" and "list_all plain name" and "section_data P name \<noteq> None"
    and "list_all blank pad" and "list_ok inh" and "list_ok attrs"
  shows "\<exists>ls'. idle ls' \<and>
           (\<forall>rest. load_loop inc ls P (''['' @ name @ '']'' @ pad @ lists_text inh attrs @ nl @ rest) =
              load_loop inc ls'
                (call_msg_functor
                   (GetErrorLineString (ls\<lparr>character_pos := character_pos ls + 1 + of_nat (length name)\<rparr>)
                    @ already_exist_msg name) P) rest)"
proof -
  define ls1 where "ls1 = ls\<lparr>ignore_current_spaces := False, parse_action := SECTION, section := [],
                            section_ptr := None, character_pos := character_pos ls + 1\<rparr>"
  define ls2 where "ls2 = ls1\<lparr>section := name, character_pos := character_pos ls1 + of_nat (length name)\<rparr>"
  define ls3 where "ls3 = ls2\<lparr>ignore_current_spaces := True, character_pos := character_pos ls2 + 1\<rparr>"
  define P' where "P' = msg ls2 (already_exist_msg name) P"
  have 1: "load_loop inc ls P (CHR ''['' # rest) = load_loop inc ls1 P rest" for rest
    using open_bracket_new_line [OF assms(1)] by (simp add: ls1_def)
  have 2: "load_loop inc ls1 P (name @ rest) = load_loop inc ls2 P rest" for rest
    using loop_plain_section [OF assms(2), of ls1 inc P rest] by (simp add: ls1_def ls2_def)
  have 3: "load_loop inc ls2 P (CHR '']'' # rest) = load_loop inc ls3 P' rest" for rest
    using close_bracket_duplicate [of ls2 P inc rest] assms(3) by (simp add: ls1_def ls2_def ls3_def P'_def)
  have pre: "parse_action ls3 = SECTION" "section_ptr ls3 = None" "ignore_current_spaces ls3"
    by (simp_all add: ls1_def ls2_def ls3_def)
  from header_lists_no_section [OF pre assms(4-6), of inc P']
  obtain ls4 where "idle ls4"
    and 4: "\<forall>rest. load_loop inc ls3 P' (pad @ lists_text inh attrs @ nl @ rest) = load_loop inc ls4 P' rest"
    by blast
  have P': "P' = call_msg_functor
                   (GetErrorLineString (ls\<lparr>character_pos := character_pos ls + 1 + of_nat (length name)\<rparr>)
                    @ already_exist_msg name) P"
    by (simp add: P'_def msg_def GetErrorLineString_def ls1_def ls2_def)
  have "load_loop inc ls P (''['' @ name @ '']'' @ pad @ lists_text inh attrs @ nl @ rest) =
        load_loop inc ls4 P' rest" for rest
    using 1 [of "name @ '']'' @ pad @ lists_text inh attrs @ nl @ rest"]
      2 [of "'']'' @ pad @ lists_text inh attrs @ nl @ rest"]
      3 [of "pad @ lists_text inh attrs @ nl @ rest"] 4
    by simp
  with \<open>idle ls4\<close> show ?thesis
    unfolding P' by blast
qed

lemma eof_when_idle:
  assumes "idle ls"
  shows "map_option snd (switch_character inc eof_character ls P) = Some P"
  using assms by (simp add: idle_def switch_character_def eof_character_def case_default_def)

subsection \<open>Simulation up to counters and messages\<close>

lemma core_fields [simp]:
  "section (core ls) = section ls" "inheritance (core ls) = inheritance ls"
  "attribute (core ls) = attribute ls" "key (core ls) = key ls" "value (core ls) = value ls"
  "preprocessor_pair (core ls) = preprocessor_pair ls" "section_ptr (core ls) = section_ptr ls"
  "parse_action (core ls) = parse_action ls" "ignore_current_spaces (core ls) = ignore_current_spaces ls"
  by (simp_all add: core_def)

lemma core_updates [simp]:
  "core (ls\<lparr>section := a\<rparr>) = (core ls)\<lparr>section := a\<rparr>"
  "core (ls\<lparr>inheritance := a\<rparr>) = (core ls)\<lparr>inheritance := a\<rparr>"
  "core (ls\<lparr>attribute := a\<rparr>) = (core ls)\<lparr>attribute := a\<rparr>"
  "core (ls\<lparr>key := a\<rparr>) = (core ls)\<lparr>key := a\<rparr>"
  "core (ls\<lparr>value := a\<rparr>) = (core ls)\<lparr>value := a\<rparr>"
  "core (ls\<lparr>preprocessor_pair := pp\<rparr>) = (core ls)\<lparr>preprocessor_pair := pp\<rparr>"
  "core (ls\<lparr>section_ptr := sp\<rparr>) = (core ls)\<lparr>section_ptr := sp\<rparr>"
  "core (ls\<lparr>parse_action := pa\<rparr>) = (core ls)\<lparr>parse_action := pa\<rparr>"
  "core (ls\<lparr>ignore_current_spaces := b\<rparr>) = (core ls)\<lparr>ignore_current_spaces := b\<rparr>"
  "core (ls\<lparr>line := l\<rparr>) = core ls"
  "core (ls\<lparr>character_pos := p\<rparr>) = core ls"
  "core (core ls) = core ls"
  by (simp_all add: core_def)

lemma model_fields [simp]:
  "section_data (model_of P) = section_data P" "current_file (model_of P) = current_file P"
  "base_path (model_of P) = base_path P"
  by (simp_all add: model_of_def)

lemma model_updates [simp]:
  "model_of (P\<lparr>section_data := sd\<rparr>) = (model_of P)\<lparr>section_data := sd\<rparr>"
  "model_of (P\<lparr>current_file := cf\<rparr>) = (model_of P)\<lparr>current_file := cf\<rparr>"
  "model_of (P\<lparr>msg_functor := m\<rparr>) = model_of P"
  "model_of (model_of P) = model_of P"
  "model_of (call_msg_functor m' P) = model_of P"
  "model_of (msg ls m' P) = model_of P"
  "model_of (at_section_ptr n f P) = at_section_ptr n f (model_of P)"
  "call_msg_functor m' (model_of P) = model_of P"
  "msg ls m' (model_of P) = model_of P"
  by (simp_all add: model_of_def call_msg_functor_def msg_def at_section_ptr_def split: option.splits)

lemma model_emplace_key:
  "model_of (emplace_key ls P) = emplace_key (core ls) (model_of P)"
  by (simp add: emplace_key_def split: option.splits)

lemma proj_PushInheritance:
  "core (fst (PushInheritance ls P)) = fst (PushInheritance (core ls) (model_of P))"
  "model_of (snd (PushInheritance ls P)) = snd (PushInheritance (core ls) (model_of P))"
  by (simp_all add: PushInheritance_def split: option.splits)

lemma proj_PushAttribute:
  "core (fst (PushAttribute ls P)) = fst (PushAttribute (core ls) (model_of P))"
  "model_of (snd (PushAttribute ls P)) = snd (PushAttribute (core ls) (model_of P))"
  by (simp_all add: PushAttribute_def split: option.splits)

lemma proj_commit_value:
  "core (fst (commit_value ls P)) = fst (commit_value (core ls) (model_of P))"
  "model_of (snd (commit_value ls P)) = snd (commit_value (core ls) (model_of P))"
  by (simp_all add: commit_value_def split: option.splits)

lemma action_kept [simp]:
  "parse_action (fst (PushInheritance ls P)) = parse_action ls"
  "parse_action (fst (PushAttribute ls P)) = parse_action ls"
  "parse_action (fst (commit_value ls P)) = parse_action ls"
  by (simp_all add: PushInheritance_def PushAttribute_def commit_value_def split: option.splits)

lemma core_newline_reset:
  "core (newline_reset ls) =
     (if parse_action ls \<noteq> STRING_VALUE \<and> parse_action ls \<noteq> MULTILINE_COMMENT
      then (core ls)\<lparr>parse_action := NEW_LINE, ignore_current_spaces := True\<rparr>
      else (core ls)\<lparr>ignore_current_spaces := True\<rparr>)"
  by (simp add: newline_reset_def)

lemmas proj_simps = norm_def model_emplace_key proj_PushInheritance proj_PushAttribute
  proj_commit_value core_newline_reset case_prod_beta

lemma norm_case_comment_character:
  "norm (case_comment_character c ls P) = norm (case_comment_character c (core ls) (model_of P))"
  by (cases "parse_action ls") (auto simp add: proj_simps case_comment_character_def)

lemma norm_case_comment_multiline:
  "norm (case_comment_multiline c ls P) = norm (case_comment_multiline c (core ls) (model_of P))"
  by (cases "parse_action ls") (auto simp add: proj_simps case_comment_multiline_def)

lemma norm_case_space:
  "norm (case_space c ls P) = norm (case_space c (core ls) (model_of P))"
  by (cases "parse_action ls") (auto simp add: proj_simps case_space_def space_error_def)

lemma norm_case_backslash:
  "norm (case_backslash ls P) = norm (case_backslash (core ls) (model_of P))"
  by (cases "parse_action ls") (auto simp add: proj_simps case_backslash_def)

lemma norm_case_quote:
  "norm (case_quote ls P) = norm (case_quote (core ls) (model_of P))"
  by (cases "parse_action ls") (auto simp add: proj_simps case_quote_def)

lemma norm_case_hash:
  "norm (case_hash c ls P) = norm (case_hash c (core ls) (model_of P))"
  by (cases "parse_action ls") (auto simp add: proj_simps case_hash_def)

lemma norm_case_lt:
  "norm (case_lt c ls P) = norm (case_lt c (core ls) (model_of P))"
  by (cases "parse_action ls") (auto simp add: proj_simps case_lt_def)

lemma norm_case_open_bracket:
  "norm (case_open_bracket c ls P) = norm (case_open_bracket c (core ls) (model_of P))"
  by (cases "parse_action ls") (auto simp add: proj_simps case_open_bracket_def)

lemma norm_case_close_bracket:
  "norm (case_close_bracket c ls P) = norm (case_close_bracket c (core ls) (model_of P))"
  by (cases "parse_action ls") (auto simp add: proj_simps case_close_bracket_def)

lemma norm_case_colon:
  "norm (case_colon c ls P) = norm (case_colon c (core ls) (model_of P))"
  by (cases "parse_action ls") (auto simp add: proj_simps case_colon_def)

lemma norm_case_default:
  "norm (case_default c ls P) = norm (case_default c (core ls) (model_of P))"
  by (cases "parse_action ls") (auto simp add: proj_simps case_default_def)

lemma norm_case_comma:
  "norm (case_comma c ls P) = norm (case_comma c (core ls) (model_of P))"
  by (cases "parse_action ls") (auto simp add: proj_simps case_comma_def)

lemma norm_case_equals:
  "norm (case_equals c ls P) = norm (case_equals c (core ls) (model_of P))"
  by (cases "parse_action ls") (auto simp add: proj_simps case_equals_def)

lemma norm_case_newline:
  "norm (case_newline ls P) = norm (case_newline (core ls) (model_of P))"
  by (cases "parse_action ls") (auto simp add: proj_simps case_newline_def)

lemma norm_escape:
  "norm (escape c ls P) = norm (escape c (core ls) (model_of P))"
  by (simp add: norm_def escape_def)

lemma core_eqD:
  assumes "core ls = core ls'"
  shows "parse_action ls = parse_action ls'" "preprocessor_pair ls = preprocessor_pair ls'"
    "section_ptr ls = section_ptr ls'" "ignore_current_spaces ls = ignore_current_spaces ls'"
    "value ls = value ls'" "key ls = key ls'" "section ls = section ls'"
    "inheritance ls = inheritance ls'" "attribute ls = attribute ls'"
  using assms core_fields by metis+

lemma model_eqD:
  assumes "model_of P = model_of P'"
  shows "section_data P = section_data P'" "current_file P = current_file P'" "base_path P = base_path P'"
  using assms model_fields by metis+

lemma norm_cong:
  assumes "\<And>l Q. norm (h l Q) = norm (h (core l) (model_of Q))"
    and "core ls = core ls'" and "model_of P = model_of P'"
  shows "norm (h ls P) = norm (h ls' P')"
  using assms by metis

lemma sim_IncludeFile:
  assumes "inc_rel inc1 inc2" and "model_of P = model_of P'"
  shows "map_option model_of (IncludeFile inc1 path P) = map_option model_of (IncludeFile inc2 path P')"
proof -
  have b: "base_path P = base_path P'" "current_file P = current_file P'"
    using model_eqD [OF assms(2)] by simp_all
  have r: "map_option model_of (inc1 (base_path P' @ path) P) = map_option model_of (inc2 (base_path P' @ path) P')"
    using assms by (simp add: inc_rel_def)
  show ?thesis
  proof (cases "inc1 (base_path P' @ path) P")
    case None
    with r have "inc2 (base_path P' @ path) P' = None" by simp
    with None b show ?thesis by (simp add: IncludeFile_def)
  next
    case (Some Q1)
    with r obtain Q2 where q: "inc2 (base_path P' @ path) P' = Some Q2" "model_of Q1 = model_of Q2"
      by (cases "inc2 (base_path P' @ path) P'") auto
    have "model_of (Q1\<lparr>current_file := current_file P'\<rparr>) = model_of (Q2\<lparr>current_file := current_file P'\<rparr>)"
      using q(2) by simp
    with Some q(1) b show ?thesis by (simp add: IncludeFile_def)
  qed
qed

lemma sim_case_gt:
  assumes "inc_rel inc1 inc2" and "core ls = core ls'" and "model_of P = model_of P'"
  shows "map_option norm (case_gt inc1 c ls P) = map_option norm (case_gt inc2 c ls' P')"
proof -
  note a = core_eqD [OF assms(2)]
  have v: "core (ls\<lparr>value := value ls @ [c]\<rparr>) = core (ls'\<lparr>value := value ls' @ [c]\<rparr>)"
    using assms(2) a by simp
  have p: "core (ls\<lparr>preprocessor_pair := (fst (preprocessor_pair ls), [])\<rparr>)
           = core (ls'\<lparr>preprocessor_pair := (fst (preprocessor_pair ls'), [])\<rparr>)"
    using assms(2) a by simp
  consider (s) "parse_action ls' = STRING_VALUE" | (i) "parse_action ls' = INCLUDE"
    | (o) "parse_action ls' \<noteq> STRING_VALUE" "parse_action ls' \<noteq> INCLUDE"
    by blast
  then show ?thesis
  proof cases
    case s
    then show ?thesis using a(1) v assms(3) by (simp add: case_gt_def norm_def)
  next
    case i
    from sim_IncludeFile [OF assms(1,3), of "snd (preprocessor_pair ls')"]
    show ?thesis
    proof (cases "IncludeFile inc1 (snd (preprocessor_pair ls')) P")
      case None
      then have "IncludeFile inc2 (snd (preprocessor_pair ls')) P' = None"
        using sim_IncludeFile [OF assms(1,3), of "snd (preprocessor_pair ls')"] by simp
      with None i a show ?thesis by (simp add: case_gt_def)
    next
      case (Some Q1)
      then obtain Q2 where q: "IncludeFile inc2 (snd (preprocessor_pair ls')) P' = Some Q2" "model_of Q1 = model_of Q2"
        using sim_IncludeFile [OF assms(1,3), of "snd (preprocessor_pair ls')"]
        by (cases "IncludeFile inc2 (snd (preprocessor_pair ls')) P'") auto
      with Some i a p show ?thesis by (simp add: case_gt_def norm_def)
    qed
  next
    case o
    then show ?thesis
      using a(1) assms(2,3) by (cases "parse_action ls'") (simp_all add: case_gt_def norm_def)
  qed
qed

lemma sim_switch:
  assumes "inc_rel inc1 inc2" and "core ls = core ls'" and "model_of P = model_of P'"
  shows "map_option norm (switch_character inc1 c ls P) = map_option norm (switch_character inc2 c ls' P')"
proof (cases "case_label c")
  case False
  then show ?thesis
    using norm_cong [of "case_default c", OF norm_case_default assms(2,3)]
    by (simp add: switch_plain plain_def)
next
  case True
  from case_label_cases [OF True] show ?thesis
  proof (elim disjE, goal_cases)
    case 1 then show ?case
      using norm_cong [of "case_comment_character c", OF norm_case_comment_character assms(2,3)] by (simp add: switch_on)
  next
    case 2 then show ?case
      using norm_cong [of "case_comment_multiline c", OF norm_case_comment_multiline assms(2,3)] by (simp add: switch_on)
  next
    case 3 then show ?case
      using norm_cong [of "case_space c", OF norm_case_space assms(2,3)] by (simp add: switch_on)
  next
    case 4 then show ?case
      using norm_cong [of "case_space c", OF norm_case_space assms(2,3)] by (simp add: switch_on)
  next
    case 5 then show ?case
      using norm_cong [of case_backslash, OF norm_case_backslash assms(2,3)] by (simp add: switch_on)
  next
    case 6 then show ?case
      using norm_cong [of case_quote, OF norm_case_quote assms(2,3)] by (simp add: switch_on)
  next
    case 7 then show ?case
      using norm_cong [of "case_hash c", OF norm_case_hash assms(2,3)] by (simp add: switch_on)
  next
    case 8 then show ?case
      using norm_cong [of case_newline, OF norm_case_newline assms(2,3)] by (simp add: switch_on)
  next
    case 9 then show ?case
      using norm_cong [of "case_lt c", OF norm_case_lt assms(2,3)] by (simp add: switch_on)
  next
    case 10 then show ?case
      using sim_case_gt [OF assms, of c] by (simp add: switch_on)
  next
    case 11 then show ?case
      using norm_cong [of "case_open_bracket c", OF norm_case_open_bracket assms(2,3)] by (simp add: switch_on)
  next
    case 12 then show ?case
      using norm_cong [of "case_close_bracket c", OF norm_case_close_bracket assms(2,3)] by (simp add: switch_on)
  next
    case 13 then show ?case
      using norm_cong [of "case_comma c", OF norm_case_comma assms(2,3)] by (simp add: switch_on)
  next
    case 14 then show ?case
      using norm_cong [of "case_colon c", OF norm_case_colon assms(2,3)] by (simp add: switch_on)
  next
    case 15 then show ?case
      using norm_cong [of "case_equals c", OF norm_case_equals assms(2,3)] by (simp add: switch_on)
  qed
qed

lemma core_next_pos [simp]: "core (next_pos ls) = core ls"
  by (simp add: next_pos_def)

lemma sim_load_loop:
  assumes "inc_rel inc1 inc2"
  shows "core ls = core ls' \<Longrightarrow> model_of P = model_of P' \<Longrightarrow>
         map_option norm3 (load_loop inc1 ls P cs) = map_option norm3 (load_loop inc2 ls' P' cs)"
proof (induction "length cs" arbitrary: cs ls ls' P P' rule: less_induct)
  case less
  note eq = less.prems
  have act: "parse_action ls = parse_action ls'"
    using core_eqD(1) [OF eq(1)] .
  show ?case
  proof (cases cs)
    case Nil
    then show ?thesis using eq by (simp add: norm3_def)
  next
    case (Cons c rest)
    show ?thesis
    proof (cases "c = CHR 0x5C \<and> parse_action ls = STRING_VALUE")
      case True
      have esc: "norm (escape d ls P) = norm (escape d ls' P')" for d
        using norm_cong [of "escape d", OF norm_escape eq] .
      show ?thesis
      proof (cases rest)
        case Nil
        then show ?thesis
          using True Cons act esc [of eof_character]
          by (simp add: load_loop.simps norm3_def norm_def case_prod_beta)
      next
        case (Cons d ds)
        have len: "length ds < length cs" using Cons \<open>cs = c # rest\<close> by simp
        have "map_option norm3 (load_loop inc1 (next_pos (fst (escape d ls P))) (snd (escape d ls P)) ds)
              = map_option norm3 (load_loop inc2 (next_pos (fst (escape d ls' P'))) (snd (escape d ls' P')) ds)"
          using esc [of d] by (intro less.hyps [OF len]) (simp_all add: norm_def)
        then show ?thesis
          using True Cons \<open>cs = c # rest\<close> act
          by (simp add: load_loop.simps case_prod_beta)
      qed
    next
      case False
      have len: "length rest < length cs" using Cons by simp
      have st: "c \<noteq> CHR 0x5C \<or> parse_action ls \<noteq> STRING_VALUE"
        "c \<noteq> CHR 0x5C \<or> parse_action ls' \<noteq> STRING_VALUE"
        using False act by auto
      note step = load_loop_step [OF st(1), of inc1 P rest] load_loop_step [OF st(2), of inc2 P' rest]
      from sim_switch [OF assms eq, of c]
      consider (none) "switch_character inc1 c ls P = None" "switch_character inc2 c ls' P' = None"
        | (some) l1 Q1 l2 Q2 where "switch_character inc1 c ls P = Some (l1, Q1)"
            "switch_character inc2 c ls' P' = Some (l2, Q2)" "core l1 = core l2" "model_of Q1 = model_of Q2"
        by (cases "switch_character inc1 c ls P"; cases "switch_character inc2 c ls' P'")
           (auto simp: norm_def)
      then show ?thesis
      proof cases
        case none
        then show ?thesis using Cons step by simp
      next
        case some
        have "map_option norm3 (load_loop inc1 (next_pos l1) Q1 rest)
              = map_option norm3 (load_loop inc2 (next_pos l2) Q2 rest)"
          using some(3,4) by (intro less.hyps [OF len]) simp_all
        then show ?thesis
          using Cons step some(1,2) by simp
      qed
    qed
  qed
qed

lemma load_loop_append:
  "load_loop inc ls P pre = Some (ls1, P1, False) \<Longrightarrow> load_loop inc ls P (pre @ xs) = load_loop inc ls1 P1 xs"
proof (induction "length pre" arbitrary: pre ls P rule: less_induct)
  case less
  show ?case
  proof (cases pre)
    case Nil
    with less.prems show ?thesis by simp
  next
    case (Cons c cs)
    show ?thesis
    proof (cases "c = CHR 0x5C \<and> parse_action ls = STRING_VALUE")
      case True
      show ?thesis
      proof (cases cs)
        case Nil
        with True Cons less.prems show ?thesis
          by (simp add: load_loop.simps case_prod_beta)
      next
        case cs: (Cons d ds)
        have len: "length ds < length pre" using Cons cs by simp
        show ?thesis
          using less.hyps [OF len, of "next_pos (fst (escape d ls P))" "snd (escape d ls P)"]
            less.prems True Cons cs
          by (simp add: load_loop.simps case_prod_beta)
      qed
    next
      case False
      then have st: "c \<noteq> CHR 0x5C \<or> parse_action ls \<noteq> STRING_VALUE" by auto
      have len: "length cs < length pre" using Cons by simp
      show ?thesis
      proof (cases "switch_character inc c ls P")
        case None
        with less.prems st Cons show ?thesis by (simp add: load_loop_step)
      next
        case (Some r)
        show ?thesis
          using less.hyps [OF len, of "next_pos (fst r)" "snd r"] less.prems Some st Cons
          by (simp add: load_loop_step case_prod_beta)
      qed
    qed
  qed
qed

lemma load_loop_append_None:
  "load_loop inc ls P pre = None \<Longrightarrow> load_loop inc ls P (pre @ xs) = None"
proof (induction "length pre" arbitrary: pre ls P rule: less_induct)
  case less
  show ?case
  proof (cases pre)
    case Nil
    with less.prems show ?thesis by simp
  next
    case (Cons c cs)
    show ?thesis
    proof (cases "c = CHR 0x5C \<and> parse_action ls = STRING_VALUE")
      case True
      show ?thesis
      proof (cases cs)
        case Nil
        with True Cons less.prems show ?thesis
          by (simp add: load_loop.simps case_prod_beta)
      next
        case cs: (Cons d ds)
        have len: "length ds < length pre" using Cons cs by simp
        show ?thesis
          using less.hyps [OF len, of "next_pos (fst (escape d ls P))" "snd (escape d ls P)"]
            less.prems True Cons cs
          by (simp add: load_loop.simps case_prod_beta)
      qed
    next
      case False
      then have st: "c \<noteq> CHR 0x5C \<or> parse_action ls \<noteq> STRING_VALUE" by auto
      have len: "length cs < length pre" using Cons by simp
      show ?thesis
      proof (cases "switch_character inc c ls P")
        case None
        with less.prems st Cons show ?thesis by (simp add: load_loop_step)
      next
        case (Some r)
        show ?thesis
          using less.hyps [OF len, of "next_pos (fst r)" "snd r"] less.prems Some st Cons
          by (simp add: load_loop_step case_prod_beta)
      qed
    qed
  qed
qed

lemma action_update_same: "parse_action ls = a \<Longrightarrow> ls\<lparr>parse_action := a\<rparr> = ls"
  by (cases ls) simp

lemma flag_update_same: "ignore_current_spaces ls \<Longrightarrow> ls\<lparr>ignore_current_spaces := True\<rparr> = ls"
  by (cases ls) simp

lemma comment_char:
  assumes "parse_action ls = COMMENT" and "c \<noteq> CHR ''|''" and "c \<noteq> CHR 0x0A"
  shows "switch_character inc c ls P = Some (ls, P)"
proof (cases "case_label c")
  case False
  then show ?thesis
    using assms by (simp add: switch_plain plain_def case_default_def)
next
  case True
  from case_label_cases [OF True] show ?thesis
    using assms action_update_same [OF assms(1)]
    by (elim disjE)
       (simp_all add: switch_on case_comment_character_def case_space_def case_backslash_def
          case_quote_def case_hash_def case_lt_def case_gt_def
          case_open_bracket_def case_close_bracket_def case_comma_def case_colon_def case_equals_def)
qed

lemma block_char:
  assumes "parse_action ls = MULTILINE_COMMENT" and "c \<noteq> CHR ''|''" and "c \<noteq> CHR '';''"
  shows "switch_character inc c ls P =
           Some (if c = CHR 0x0A then ls\<lparr>line := line ls + 1, ignore_current_spaces := True\<rparr> else ls, P)"
proof (cases "case_label c")
  case False
  then have "c \<noteq> CHR 0x0A" by (auto simp: case_label_def)
  then show ?thesis
    using False assms by (simp add: switch_plain plain_def case_default_def)
next
  case True
  from case_label_cases [OF True] show ?thesis
    using assms
    by (elim disjE)
       (simp_all add: switch_on case_space_def case_backslash_def
          case_quote_def case_hash_def case_newline_def newline_reset_def case_lt_def case_gt_def
          case_open_bracket_def case_close_bracket_def case_comma_def case_colon_def case_equals_def)
qed

lemma comment_run:
  assumes "parse_action ls = COMMENT" and "CHR ''|'' \<notin> set body" and "CHR 0x0A \<notin> set body"
  shows "load_loop inc ls P (body @ rest) =
         load_loop inc (ls\<lparr>character_pos := character_pos ls + of_nat (length body)\<rparr>) P rest"
  using assms
proof (induction body arbitrary: ls)
  case Nil
  show ?case by simp
next
  case (Cons c body)
  have sw: "switch_character inc c ls P = Some (ls, P)"
    using Cons.prems by (intro comment_char) auto
  show ?case
    using Cons.prems Cons.IH [of "next_pos ls"]
    by (simp add: load_loop_step sw next_pos_def add.assoc)
qed

lemma block_run:
  assumes "parse_action ls = MULTILINE_COMMENT" and "ignore_current_spaces ls"
    and "CHR ''|'' \<notin> set body" and "CHR '';'' \<notin> set body"
  shows "\<exists>l'. core l' = core ls \<and> (\<forall>rest. load_loop inc ls P (body @ rest) = load_loop inc l' P rest)"
  using assms
proof (induction body arbitrary: ls)
  case Nil
  show ?case by (intro exI [of _ ls]) simp
next
  case (Cons c body)
  define l1 where "l1 = next_pos (if c = CHR 0x0A then ls\<lparr>line := line ls + 1, ignore_current_spaces := True\<rparr> else ls)"
  have sw: "switch_character inc c ls P =
      Some (if c = CHR 0x0A then ls\<lparr>line := line ls + 1, ignore_current_spaces := True\<rparr> else ls, P)"
    using Cons.prems by (intro block_char) auto
  have st: "\<forall>rest. load_loop inc ls P ((c # body) @ rest) = load_loop inc l1 P (body @ rest)"
    using Cons.prems(1) by (simp add: load_loop_step sw l1_def)
  have c1: "core l1 = core ls"
    using flag_update_same [of "core ls"] Cons.prems(2) by (simp add: l1_def)
  have "parse_action l1 = MULTILINE_COMMENT" "ignore_current_spaces l1"
    using Cons.prems(1,2) by (simp_all add: l1_def next_pos_def)
  from Cons.IH [OF this] Cons.prems(3,4)
  obtain l' where "core l' = core l1" "\<forall>rest. load_loop inc l1 P (body @ rest) = load_loop inc l' P rest"
    by auto
  then show ?case
    using st c1 by (intro exI [of _ l']) simp
qed

lemma line_start_core:
  assumes "parse_action ls = NEW_LINE" and "ignore_current_spaces ls"
  shows "core (ls\<lparr>parse_action := NEW_LINE, line := l, ignore_current_spaces := True, character_pos := p\<rparr>) = core ls"
  using action_update_same [OF assms(1)] flag_update_same [OF assms(2)]
  by (simp add: core_def)

lemma newline_at_line_start:
  assumes "parse_action ls = NEW_LINE"
  shows "load_loop inc ls P (CHR 0x0A # rest) =
         load_loop inc (ls\<lparr>parse_action := NEW_LINE, line := line ls + 1,
                            ignore_current_spaces := True, character_pos := 1\<rparr>) P rest"
  using assms by (simp add: load_loop_step switch_on case_newline_def newline_reset_def next_pos_def)

lemma newline_in_comment:
  assumes "parse_action ls = COMMENT"
  shows "load_loop inc ls P (CHR 0x0A # rest) =
         load_loop inc (ls\<lparr>parse_action := NEW_LINE, line := line ls + 1,
                            ignore_current_spaces := True, character_pos := 1\<rparr>) P rest"
  using assms by (simp add: load_loop_step switch_on case_newline_def newline_reset_def next_pos_def)

lemma semicolon_at_line_start:
  assumes "parse_action ls = NEW_LINE"
  shows "load_loop inc ls P (CHR '';'' # rest) =
         load_loop inc (ls\<lparr>parse_action := COMMENT, character_pos := character_pos ls + 1\<rparr>) P rest"
  using assms by (simp add: load_loop_step switch_on case_comment_character_def next_pos_def)

lemma bar_at_line_start:
  assumes "parse_action ls = NEW_LINE"
  shows "load_loop inc ls P (CHR ''|'' # rest) =
         load_loop inc (ls\<lparr>parse_action := MULTILINE_COMMENT, character_pos := character_pos ls + 1\<rparr>) P rest"
  using assms by (simp add: load_loop_step switch_on case_comment_multiline_def next_pos_def)

lemma bar_in_block:
  assumes "parse_action ls = MULTILINE_COMMENT"
  shows "load_loop inc ls P (CHR ''|'' # rest) =
         load_loop inc (ls\<lparr>parse_action := NEW_LINE, character_pos := character_pos ls + 1\<rparr>) P rest"
  using assms by (simp add: load_loop_step switch_on case_comment_multiline_def next_pos_def)

lemma line_comment_run:
  assumes "parse_action ls = NEW_LINE" and "ignore_current_spaces ls"
    and "CHR ''|'' \<notin> set body" and "CHR 0x0A \<notin> set body"
  shows "\<exists>l1. core l1 = core ls \<and> (\<forall>rest. load_loop inc ls P ('';'' @ body @ nl @ rest) = load_loop inc l1 P rest)"
proof -
  define la where "la = ls\<lparr>parse_action := COMMENT, character_pos := character_pos ls + 1\<rparr>"
  define lb where "lb = la\<lparr>character_pos := character_pos la + of_nat (length body)\<rparr>"
  define lc where "lc = lb\<lparr>parse_action := NEW_LINE, line := line lb + 1,
                            ignore_current_spaces := True, character_pos := 1\<rparr>"
  have a: "load_loop inc ls P (CHR '';'' # rest) = load_loop inc la P rest" for rest
    using semicolon_at_line_start [OF assms(1)] by (simp add: la_def)
  have b: "load_loop inc la P (body @ rest) = load_loop inc lb P rest" for rest
    using comment_run [of la body inc P rest] assms(3,4) by (simp add: la_def lb_def)
  have c: "load_loop inc lb P (CHR 0x0A # rest) = load_loop inc lc P rest" for rest
    using newline_in_comment [of lb inc P rest] by (simp add: la_def lb_def lc_def)
  have "core lc = core ls"
    using line_start_core [OF assms(1,2)] by (simp add: la_def lb_def lc_def core_def)
  then show ?thesis
    using a b c by (intro exI [of _ lc]) (simp add: nl_def)
qed

lemma newline_run:
  assumes "parse_action ls = NEW_LINE" and "ignore_current_spaces ls"
  shows "\<exists>l2. core l2 = core ls \<and> (\<forall>rest. load_loop inc ls P (nl @ rest) = load_loop inc l2 P rest)"
  using newline_at_line_start [OF assms(1), of inc P] line_start_core [OF assms]
  by (intro exI [of _ "ls\<lparr>parse_action := NEW_LINE, line := line ls + 1,
                            ignore_current_spaces := True, character_pos := 1\<rparr>"]) (simp add: nl_def)

lemma block_comment_run:
  assumes "parse_action ls = NEW_LINE" and "ignore_current_spaces ls"
    and "CHR ''|'' \<notin> set body" and "CHR '';'' \<notin> set body"
  shows "\<exists>l1. core l1 = core ls \<and> (\<forall>rest. load_loop inc ls P (''|'' @ body @ ''|'' @ rest) = load_loop inc l1 P rest)"
proof -
  define la where "la = ls\<lparr>parse_action := MULTILINE_COMMENT, character_pos := character_pos ls + 1\<rparr>"
  have a: "load_loop inc ls P (CHR ''|'' # rest) = load_loop inc la P rest" for rest
    using bar_at_line_start [OF assms(1)] by (simp add: la_def)
  have "parse_action la = MULTILINE_COMMENT" "ignore_current_spaces la"
    using assms(2) by (simp_all add: la_def)
  from block_run [OF this assms(3,4), of inc P]
  obtain lb where lb: "core lb = core la" and b: "\<forall>rest. load_loop inc la P (body @ rest) = load_loop inc lb P rest"
    by blast
  define lc where "lc = lb\<lparr>parse_action := NEW_LINE, character_pos := character_pos lb + 1\<rparr>"
  have "parse_action lb = MULTILINE_COMMENT"
    using core_eqD(1) [OF lb] by (simp add: la_def)
  then have c: "load_loop inc lb P (CHR ''|'' # rest) = load_loop inc lc P rest" for rest
    using bar_in_block [of lb inc P rest] by (simp add: lc_def)
  have "core lc = (core la)\<lparr>parse_action := NEW_LINE\<rparr>"
    using lb by (simp add: lc_def)
  also have "\<dots> = core ls"
    using action_update_same [of "core ls" NEW_LINE] assms(1) by (simp add: la_def)
  finally have "core lc = core ls" .
  then show ?thesis
    using a b c by (intro exI [of _ lc]) simp
qed

lemma same_effect_line_comment:
  assumes "CHR ''|'' \<notin> set body" and "CHR 0x0A \<notin> set body"
  shows "same_effect ('';'' @ body @ nl) nl" and "same_effect ('';'' @ body @ nl) []"
proof -
  show "same_effect ('';'' @ body @ nl) nl"
    unfolding same_effect_def
  proof (intro allI impI)
    fix inc and ls :: locals and P
    assume h: "parse_action ls = NEW_LINE \<and> ignore_current_spaces ls"
    from line_comment_run [of ls body inc P] h assms
    obtain l1 where 1: "core l1 = core ls" "\<forall>rest. load_loop inc ls P ('';'' @ body @ nl @ rest) = load_loop inc l1 P rest"
      by blast
    from newline_run [of ls inc P] h
    obtain l2 where 2: "core l2 = core ls" "\<forall>rest. load_loop inc ls P (nl @ rest) = load_loop inc l2 P rest"
      by blast
    show "\<exists>l1 l2. core l1 = core l2
           \<and> (\<forall>rest. load_loop inc ls P (('';'' @ body @ nl) @ rest) = load_loop inc l1 P rest)
           \<and> (\<forall>rest. load_loop inc ls P (nl @ rest) = load_loop inc l2 P rest)"
      using 1 2 by (intro exI [of _ l1] exI [of _ l2]) simp
  qed
  show "same_effect ('';'' @ body @ nl) []"
    unfolding same_effect_def
  proof (intro allI impI)
    fix inc and ls :: locals and P
    assume h: "parse_action ls = NEW_LINE \<and> ignore_current_spaces ls"
    from line_comment_run [of ls body inc P] h assms
    obtain l1 where 1: "core l1 = core ls" "\<forall>rest. load_loop inc ls P ('';'' @ body @ nl @ rest) = load_loop inc l1 P rest"
      by blast
    show "\<exists>l1 l2. core l1 = core l2
           \<and> (\<forall>rest. load_loop inc ls P (('';'' @ body @ nl) @ rest) = load_loop inc l1 P rest)
           \<and> (\<forall>rest. load_loop inc ls P ([] @ rest) = load_loop inc l2 P rest)"
      using 1 by (intro exI [of _ l1] exI [of _ ls]) simp
  qed
qed

lemma same_effect_block_comment:
  assumes "CHR ''|'' \<notin> set body" and "CHR '';'' \<notin> set body"
  shows "same_effect (''|'' @ body @ ''|'') []"
  unfolding same_effect_def
proof (intro allI impI)
  fix inc and ls :: locals and P
  assume h: "parse_action ls = NEW_LINE \<and> ignore_current_spaces ls"
  from block_comment_run [of ls body inc P] h assms
  obtain l1 where 1: "core l1 = core ls" "\<forall>rest. load_loop inc ls P (''|'' @ body @ ''|'' @ rest) = load_loop inc l1 P rest"
    by blast
  show "\<exists>l1 l2. core l1 = core l2
         \<and> (\<forall>rest. load_loop inc ls P ((''|'' @ body @ ''|'') @ rest) = load_loop inc l1 P rest)
         \<and> (\<forall>rest. load_loop inc ls P ([] @ rest) = load_loop inc l2 P rest)"
    using 1 by (intro exI [of _ l1] exI [of _ ls]) simp
qed

lemma inc_rel_left:
  assumes "inc_rel inc1 inc2"
  shows "inc_rel inc1 inc1"
  unfolding inc_rel_def
proof (intro allI impI)
  fix q P P'
  assume m: "model_of P = model_of P'"
  have "map_option model_of (inc1 q P) = map_option model_of (inc2 q P')"
    using assms m by (simp add: inc_rel_def)
  moreover have "map_option model_of (inc1 q P') = map_option model_of (inc2 q P')"
    using assms by (simp add: inc_rel_def)
  ultimately show "map_option model_of (inc1 q P) = map_option model_of (inc1 q P')"
    by simp
qed

lemma inc_rel_none: "inc_rel (\<lambda>path P. None) (\<lambda>path P. None)"
  by (simp add: inc_rel_def)

lemma load_file_finish:
  "load_file inc fs file_path P =
     (case fs file_path of
        None \<Rightarrow> Some (call_msg_functor (open_failure_msg file_path) (P\<lparr>current_file := file_path\<rparr>))
      | Some bytes \<Rightarrow> finish inc (load_loop inc locals_init (P\<lparr>current_file := file_path\<rparr>) bytes))"
  by (simp add: load_file_def finish_def open_failure_msg_def split: option.splits)

lemma finish_sim:
  assumes "inc_rel inc1 inc2" and "map_option norm3 r1 = map_option norm3 r2"
  shows "map_option model_of (finish inc1 r1) = map_option model_of (finish inc2 r2)"
proof (cases r1)
  case None
  with assms(2) have "r2 = None" by simp
  with None show ?thesis by (simp add: finish_def)
next
  case (Some a)
  with assms(2) obtain b where b: "r2 = Some b" "norm3 a = norm3 b"
    by (cases r2) auto
  obtain l1 Q1 e1 where a: "a = (l1, Q1, e1)" by (cases a)
  obtain l2 Q2 e2 where b': "b = (l2, Q2, e2)" by (cases b)
  from b(2) a b' have eq: "core l1 = core l2" "model_of Q1 = model_of Q2" "e1 = e2"
    by (simp_all add: norm3_def)
  show ?thesis
  proof (cases e1)
    case True
    with Some b a b' eq show ?thesis by (simp add: finish_def)
  next
    case False
    from sim_switch [OF assms(1) eq(1,2), of eof_character]
    have "map_option model_of (map_option snd (switch_character inc1 eof_character l1 Q1))
          = map_option model_of (map_option snd (switch_character inc2 eof_character l2 Q2))"
      by (cases "switch_character inc1 eof_character l1 Q1"; cases "switch_character inc2 eof_character l2 Q2")
         (auto simp: norm_def)
    with False Some b a b' eq show ?thesis by (simp add: finish_def)
  qed
qed

lemma load_file_sim_same:
  assumes "inc_rel inc1 inc2" and "model_of P = model_of P'" and "fs1 q = fs2 q"
  shows "map_option model_of (load_file inc1 fs1 q P) = map_option model_of (load_file inc2 fs2 q P')"
proof (cases "fs2 q")
  case None
  with assms(2,3) show ?thesis by (simp add: load_file_finish)
next
  case (Some bytes)
  have m: "model_of (P\<lparr>current_file := q\<rparr>) = model_of (P'\<lparr>current_file := q\<rparr>)"
    using assms(2) by simp
  from finish_sim [OF assms(1) sim_load_loop [OF assms(1) refl m, of locals_init bytes]]
  show ?thesis using Some assms(3) by (simp add: load_file_finish)
qed

lemma load_file_sim_edit:
  assumes rel: "inc_rel inc1 inc2" and mo: "model_of P = model_of P'" and se: "same_effect X Y"
    and H: "\<forall>inc P. at_line_start (load_loop inc locals_init P pre)"
    and f1: "fs1 q = Some (pre @ X @ post)" and f2: "fs2 q = Some (pre @ Y @ post)"
  shows "map_option model_of (load_file inc1 fs1 q P) = map_option model_of (load_file inc2 fs2 q P')"
proof -
  define P1 where "P1 = P\<lparr>current_file := q\<rparr>"
  define P1' where "P1' = P'\<lparr>current_file := q\<rparr>"
  have m: "model_of P1 = model_of P1'"
    using mo by (simp add: P1_def P1'_def)
  note simpre = sim_load_loop [OF rel refl m, of locals_init pre]
  have "map_option norm3 (load_loop inc1 locals_init P1 (pre @ X @ post))
        = map_option norm3 (load_loop inc2 locals_init P1' (pre @ Y @ post))"
  proof (cases "load_loop inc1 locals_init P1 pre")
    case None
    with simpre have "load_loop inc2 locals_init P1' pre = None" by simp
    with None show ?thesis by (simp add: load_loop_append_None)
  next
    case (Some a)
    with simpre obtain b where b: "load_loop inc2 locals_init P1' pre = Some b" "norm3 a = norm3 b"
      by (cases "load_loop inc2 locals_init P1' pre") auto
    obtain ls Q e where a: "a = (ls, Q, e)" by (cases a)
    obtain ls' Q' e' where b': "b = (ls', Q', e')" by (cases b)
    from H Some a have st: "\<not> e" "parse_action ls = NEW_LINE" "ignore_current_spaces ls"
      by (auto simp: at_line_start_def dest!: spec [of _ inc1] spec [of _ P1])
    from b(2) a b' have eq: "core ls = core ls'" "model_of Q = model_of Q'" "e = e'"
      by (simp_all add: norm3_def)
    from se st obtain l1 l2 where c: "core l1 = core l2"
      and x: "\<forall>rest. load_loop inc1 ls Q (X @ rest) = load_loop inc1 l1 Q rest"
      and y: "\<forall>rest. load_loop inc1 ls Q (Y @ rest) = load_loop inc1 l2 Q rest"
      unfolding same_effect_def by blast
    have "load_loop inc1 locals_init P1 (pre @ X @ post) = load_loop inc1 l1 Q post"
      using Some a st(1) x by (simp add: load_loop_append)
    moreover have "map_option norm3 (load_loop inc1 l1 Q post) = map_option norm3 (load_loop inc1 l2 Q post)"
      by (rule sim_load_loop [OF inc_rel_left [OF rel] c refl])
    moreover have "load_loop inc1 l2 Q post = load_loop inc1 ls Q (Y @ post)"
      using y by simp
    moreover have "map_option norm3 (load_loop inc1 ls Q (Y @ post)) = map_option norm3 (load_loop inc2 ls' Q' (Y @ post))"
      by (rule sim_load_loop [OF rel eq(1,2)])
    moreover have "load_loop inc2 locals_init P1' (pre @ Y @ post) = load_loop inc2 ls' Q' (Y @ post)"
      using b b' eq(3) st(1) by (simp add: load_loop_append)
    ultimately show ?thesis by simp
  qed
  from finish_sim [OF rel this]
  show ?thesis using f1 f2 by (simp add: load_file_finish P1_def P1'_def)
qed

lemma load_edit_rel:
  assumes "same_effect X Y" and "\<forall>inc P. at_line_start (load_loop inc locals_init P pre)"
  shows "inc_rel (load depth (fs(path \<mapsto> pre @ X @ post))) (load depth (fs(path \<mapsto> pre @ Y @ post)))"
proof -
  have step: "inc_rel (load_file inc1 (fs(path \<mapsto> pre @ X @ post))) (load_file inc2 (fs(path \<mapsto> pre @ Y @ post)))"
    if rel: "inc_rel inc1 inc2" for inc1 inc2
    unfolding inc_rel_def
  proof (intro allI impI)
    fix q P P'
    assume mo: "model_of P = model_of P'"
    show "map_option model_of (load_file inc1 (fs(path \<mapsto> pre @ X @ post)) q P)
          = map_option model_of (load_file inc2 (fs(path \<mapsto> pre @ Y @ post)) q P')"
    proof (cases "q = path")
      case True
      then show ?thesis
        by (intro load_file_sim_edit [OF rel mo assms]) simp_all
    next
      case False
      then show ?thesis
        by (intro load_file_sim_same [OF rel mo]) simp
    qed
  qed
  show ?thesis
  proof (induction depth)
    case 0
    show ?case unfolding load.simps by (rule step [OF inc_rel_none])
  next
    case (Suc depth)
    show ?case unfolding load.simps by (rule step [OF Suc])
  qed
qed

lemma load_edit_sections:
  assumes "same_effect X Y" and "\<forall>inc P. at_line_start (load_loop inc locals_init P pre)"
  shows "map_option section_data (load depth (fs(path \<mapsto> pre @ X @ post)) q P)
         = map_option section_data (load depth (fs(path \<mapsto> pre @ Y @ post)) q P)"
proof -
  from load_edit_rel [OF assms, of depth fs path post]
  have "map_option model_of (load depth (fs(path \<mapsto> pre @ X @ post)) q P)
         = map_option model_of (load depth (fs(path \<mapsto> pre @ Y @ post)) q P)"
    by (simp add: inc_rel_def)
  then have "map_option section_data (map_option model_of (load depth (fs(path \<mapsto> pre @ X @ post)) q P))
         = map_option section_data (map_option model_of (load depth (fs(path \<mapsto> pre @ Y @ post)) q P))"
    by simp
  then show ?thesis
    by (simp add: option.map_comp comp_def)
qed

subsection \<open>Reading back a saved file\<close>

lemma close_bracket_new:
  assumes "parse_action ls = SECTION" and "section_data P (section ls) = None"
  shows "load_loop inc ls P (CHR '']'' # rest) =
         load_loop inc (ls\<lparr>section_ptr := Some (section ls), ignore_current_spaces := True,
                            character_pos := character_pos ls + 1\<rparr>)
           (P\<lparr>section_data := (section_data P)(section ls \<mapsto> Section_new)\<rparr>) rest"
  using assms by (simp add: load_loop_step switch_on case_close_bracket_def next_pos_def)

lemma header_open:
  assumes "list_all plain name" and "sd name = None"
  shows "\<exists>p'. \<forall>rest. load_loop inc \<lparr>section = sn, inheritance = ih, attribute = at, key = ky, value = vl, preprocessor_pair = pp, section_ptr = sp, parse_action = NEW_LINE, line = l, character_pos = p, ignore_current_spaces = ig\<rparr> \<lparr>section_data = sd, msg_functor = mf, current_file = cf, base_path = bp\<rparr> (''['' @ name @ '']'' @ rest) =
           load_loop inc \<lparr>section = name, inheritance = ih, attribute = at, key = ky, value = vl, preprocessor_pair = pp, section_ptr = Some name, parse_action = SECTION, line = l, character_pos = p', ignore_current_spaces = True\<rparr>
             \<lparr>section_data = sd(name \<mapsto> Section_new), msg_functor = mf, current_file = cf, base_path = bp\<rparr> rest"
proof -
  have 1: "load_loop inc \<lparr>section = sn, inheritance = ih, attribute = at, key = ky, value = vl, preprocessor_pair = pp, section_ptr = sp, parse_action = NEW_LINE, line = l, character_pos = p, ignore_current_spaces = ig\<rparr> \<lparr>section_data = sd, msg_functor = mf, current_file = cf, base_path = bp\<rparr> (CHR ''['' # rest) =
      load_loop inc \<lparr>section = [], inheritance = ih, attribute = at, key = ky, value = vl, preprocessor_pair = pp, section_ptr = None, parse_action = SECTION, line = l, character_pos = p + 1, ignore_current_spaces = False\<rparr> \<lparr>section_data = sd, msg_functor = mf, current_file = cf, base_path = bp\<rparr> rest" for rest
    using open_bracket_new_line [of "\<lparr>section = sn, inheritance = ih, attribute = at, key = ky, value = vl, preprocessor_pair = pp, section_ptr = sp, parse_action = NEW_LINE, line = l, character_pos = p, ignore_current_spaces = ig\<rparr>" inc "\<lparr>section_data = sd, msg_functor = mf, current_file = cf, base_path = bp\<rparr>" rest] by simp
  have 2: "load_loop inc \<lparr>section = [], inheritance = ih, attribute = at, key = ky, value = vl, preprocessor_pair = pp, section_ptr = None, parse_action = SECTION, line = l, character_pos = p + 1, ignore_current_spaces = False\<rparr> \<lparr>section_data = sd, msg_functor = mf, current_file = cf, base_path = bp\<rparr> (name @ rest) =
      load_loop inc \<lparr>section = name, inheritance = ih, attribute = at, key = ky, value = vl, preprocessor_pair = pp, section_ptr = None, parse_action = SECTION, line = l, character_pos = p + 1 + of_nat (length name), ignore_current_spaces = False\<rparr> \<lparr>section_data = sd, msg_functor = mf, current_file = cf, base_path = bp\<rparr> rest" for rest
    using loop_plain_section [OF assms(1), of "\<lparr>section = [], inheritance = ih, attribute = at, key = ky, value = vl, preprocessor_pair = pp, section_ptr = None, parse_action = SECTION, line = l, character_pos = p + 1, ignore_current_spaces = False\<rparr>" inc "\<lparr>section_data = sd, msg_functor = mf, current_file = cf, base_path = bp\<rparr>" rest]
    by simp
  have 3: "load_loop inc \<lparr>section = name, inheritance = ih, attribute = at, key = ky, value = vl, preprocessor_pair = pp, section_ptr = None, parse_action = SECTION, line = l, character_pos = p + 1 + of_nat (length name), ignore_current_spaces = False\<rparr> \<lparr>section_data = sd, msg_functor = mf, current_file = cf, base_path = bp\<rparr> (CHR '']'' # rest) =
      load_loop inc \<lparr>section = name, inheritance = ih, attribute = at, key = ky, value = vl, preprocessor_pair = pp, section_ptr = Some name, parse_action = SECTION, line = l, character_pos = p + 1 + of_nat (length name) + 1, ignore_current_spaces = True\<rparr>
        \<lparr>section_data = sd(name \<mapsto> Section_new), msg_functor = mf, current_file = cf, base_path = bp\<rparr> rest" for rest
    using close_bracket_new [of "\<lparr>section = name, inheritance = ih, attribute = at, key = ky, value = vl, preprocessor_pair = pp, section_ptr = None, parse_action = SECTION, line = l, character_pos = p + 1 + of_nat (length name), ignore_current_spaces = False\<rparr>" "\<lparr>section_data = sd, msg_functor = mf, current_file = cf, base_path = bp\<rparr>" inc rest] assms(2)
    by simp
  show ?thesis
    using 1 2 3 by (intro exI [of _ "p + 1 + of_nat (length name) + 1"]) simp
qed


lemmas step_defs = load_loop_step switch_on next_pos_def case_space_def space_error_def
  case_comma_def case_colon_def case_equals_def case_newline_def newline_reset_def
  PushInheritance_def PushAttribute_def at_section_ptr_def emplace_key_def commit_value_def

lemma names_inheritance:
  assumes "\<forall>b \<in> set (pend # xs). b \<noteq> [] \<and> list_all plain b \<and> sd b \<noteq> None" and "sd n = Some s"
  shows "\<exists>p'. \<forall>rest. load_loop inc \<lparr>section = sn, inheritance = pend, attribute = at, key = ky, value = vl, preprocessor_pair = pp, section_ptr = Some n, parse_action = INHERITANCE, line = l, character_pos = p, ignore_current_spaces = True\<rparr> \<lparr>section_data = sd, msg_functor = mf, current_file = cf, base_path = bp\<rparr> (write_names False xs @ rest) =
           load_loop inc \<lparr>section = sn, inheritance = last (pend # xs), attribute = at, key = ky, value = vl, preprocessor_pair = pp, section_ptr = Some n, parse_action = INHERITANCE, line = l, character_pos = p', ignore_current_spaces = True\<rparr>
             \<lparr>section_data = sd(n \<mapsto> s\<lparr>inheritances := inheritances s @ butlast (pend # xs)\<rparr>), msg_functor = mf, current_file = cf, base_path = bp\<rparr> rest"
  using assms
proof (induction xs arbitrary: pend p sd s)
  case Nil
  then show ?case by (intro exI [of _ p]) (simp add: fun_upd_idem)
next
  case (Cons x xs)
  define s1 where "s1 = s\<lparr>inheritances := inheritances s @ [pend]\<rparr>"
  define sd1 where "sd1 = sd(n \<mapsto> s1)"
  from Cons.prems have pend: "pend \<noteq> []" "sd pend \<noteq> None" and x: "list_all plain x"
    by auto
  have 1: "load_loop inc \<lparr>section = sn, inheritance = pend, attribute = at, key = ky, value = vl, preprocessor_pair = pp, section_ptr = Some n, parse_action = INHERITANCE, line = l, character_pos = p, ignore_current_spaces = True\<rparr> \<lparr>section_data = sd, msg_functor = mf, current_file = cf, base_path = bp\<rparr> (CHR '','' # CHR '' '' # rest) =
      load_loop inc \<lparr>section = sn, inheritance = [], attribute = at, key = ky, value = vl, preprocessor_pair = pp, section_ptr = Some n, parse_action = INHERITANCE, line = l, character_pos = p + 1 + 1, ignore_current_spaces = True\<rparr> \<lparr>section_data = sd1, msg_functor = mf, current_file = cf, base_path = bp\<rparr> rest" for rest
    using pend Cons.prems(2) by (auto simp add: step_defs sd1_def s1_def)
  have 2: "load_loop inc \<lparr>section = sn, inheritance = [], attribute = at, key = ky, value = vl, preprocessor_pair = pp, section_ptr = Some n, parse_action = INHERITANCE, line = l, character_pos = p + 1 + 1, ignore_current_spaces = True\<rparr> \<lparr>section_data = sd1, msg_functor = mf, current_file = cf, base_path = bp\<rparr> (x @ rest) =
      load_loop inc \<lparr>section = sn, inheritance = x, attribute = at, key = ky, value = vl, preprocessor_pair = pp, section_ptr = Some n, parse_action = INHERITANCE, line = l, character_pos = p + 1 + 1 + of_nat (length x), ignore_current_spaces = True\<rparr> \<lparr>section_data = sd1, msg_functor = mf, current_file = cf, base_path = bp\<rparr> rest" for rest
    using loop_plain_inheritance [OF x, of "\<lparr>section = sn, inheritance = [], attribute = at, key = ky, value = vl, preprocessor_pair = pp, section_ptr = Some n, parse_action = INHERITANCE, line = l, character_pos = p + 1 + 1, ignore_current_spaces = True\<rparr>" inc "\<lparr>section_data = sd1, msg_functor = mf, current_file = cf, base_path = bp\<rparr>" rest]
    by simp
  have pre: "\<forall>b \<in> set (x # xs). b \<noteq> [] \<and> list_all plain b \<and> sd1 b \<noteq> None" "sd1 n = Some s1"
    using Cons.prems by (auto simp: sd1_def)
  from Cons.IH [of x sd1 s1 "p + 1 + 1 + of_nat (length x)", OF pre]
  obtain p' where 3: "\<forall>rest. load_loop inc \<lparr>section = sn, inheritance = x, attribute = at, key = ky, value = vl, preprocessor_pair = pp, section_ptr = Some n, parse_action = INHERITANCE, line = l, character_pos = p + 1 + 1 + of_nat (length x), ignore_current_spaces = True\<rparr> \<lparr>section_data = sd1, msg_functor = mf, current_file = cf, base_path = bp\<rparr> (write_names False xs @ rest) =
           load_loop inc \<lparr>section = sn, inheritance = last (x # xs), attribute = at, key = ky, value = vl, preprocessor_pair = pp, section_ptr = Some n, parse_action = INHERITANCE, line = l, character_pos = p', ignore_current_spaces = True\<rparr>
             \<lparr>section_data = sd1(n \<mapsto> s1\<lparr>inheritances := inheritances s1 @ butlast (x # xs)\<rparr>), msg_functor = mf, current_file = cf, base_path = bp\<rparr> rest"
    by blast
  have e: "sd1(n \<mapsto> s1\<lparr>inheritances := inheritances s1 @ butlast (x # xs)\<rparr>)
           = sd(n \<mapsto> s\<lparr>inheritances := inheritances s @ butlast (pend # x # xs)\<rparr>)"
    by (simp add: sd1_def s1_def)
  show ?case
  proof (intro exI [of _ p'] allI)
    fix rest
    have "load_loop inc \<lparr>section = sn, inheritance = pend, attribute = at, key = ky, value = vl, preprocessor_pair = pp, section_ptr = Some n, parse_action = INHERITANCE, line = l, character_pos = p, ignore_current_spaces = True\<rparr> \<lparr>section_data = sd, msg_functor = mf, current_file = cf, base_path = bp\<rparr> (write_names False (x # xs) @ rest) =
      load_loop inc \<lparr>section = sn, inheritance = pend, attribute = at, key = ky, value = vl, preprocessor_pair = pp, section_ptr = Some n, parse_action = INHERITANCE, line = l, character_pos = p, ignore_current_spaces = True\<rparr> \<lparr>section_data = sd, msg_functor = mf, current_file = cf, base_path = bp\<rparr> (CHR '','' # CHR '' '' # x @ write_names False xs @ rest)"
      by simp
    also have "\<dots> = load_loop inc \<lparr>section = sn, inheritance = [], attribute = at, key = ky, value = vl, preprocessor_pair = pp, section_ptr = Some n, parse_action = INHERITANCE, line = l, character_pos = p + 1 + 1, ignore_current_spaces = True\<rparr> \<lparr>section_data = sd1, msg_functor = mf, current_file = cf, base_path = bp\<rparr> (x @ write_names False xs @ rest)"
      by (rule 1)
    also have "\<dots> = load_loop inc \<lparr>section = sn, inheritance = x, attribute = at, key = ky, value = vl, preprocessor_pair = pp, section_ptr = Some n, parse_action = INHERITANCE, line = l, character_pos = p + 1 + 1 + of_nat (length x), ignore_current_spaces = True\<rparr> \<lparr>section_data = sd1, msg_functor = mf, current_file = cf, base_path = bp\<rparr> (write_names False xs @ rest)"
      by (rule 2)
    also have "\<dots> = load_loop inc \<lparr>section = sn, inheritance = last (x # xs), attribute = at, key = ky, value = vl, preprocessor_pair = pp, section_ptr = Some n, parse_action = INHERITANCE, line = l, character_pos = p', ignore_current_spaces = True\<rparr>
             \<lparr>section_data = sd(n \<mapsto> s\<lparr>inheritances := inheritances s @ butlast (pend # x # xs)\<rparr>), msg_functor = mf, current_file = cf, base_path = bp\<rparr> rest"
      using 3 unfolding e by blast
    finally show "load_loop inc \<lparr>section = sn, inheritance = pend, attribute = at, key = ky, value = vl, preprocessor_pair = pp, section_ptr = Some n, parse_action = INHERITANCE, line = l, character_pos = p, ignore_current_spaces = True\<rparr> \<lparr>section_data = sd, msg_functor = mf, current_file = cf, base_path = bp\<rparr> (write_names False (x # xs) @ rest) =
           load_loop inc \<lparr>section = sn, inheritance = last (pend # x # xs), attribute = at, key = ky, value = vl, preprocessor_pair = pp, section_ptr = Some n, parse_action = INHERITANCE, line = l, character_pos = p', ignore_current_spaces = True\<rparr>
             \<lparr>section_data = sd(n \<mapsto> s\<lparr>inheritances := inheritances s @ butlast (pend # x # xs)\<rparr>), msg_functor = mf, current_file = cf, base_path = bp\<rparr> rest"
      by simp
  qed
qed

lemma names_attribute:
  assumes "\<forall>b \<in> set (pend # xs). b \<noteq> [] \<and> list_all plain b" and "sd n = Some s"
  shows "\<exists>p'. \<forall>rest. load_loop inc \<lparr>section = sn, inheritance = ih, attribute = pend, key = ky, value = vl, preprocessor_pair = pp, section_ptr = Some n, parse_action = ATTRIBUTE, line = l, character_pos = p, ignore_current_spaces = True\<rparr> \<lparr>section_data = sd, msg_functor = mf, current_file = cf, base_path = bp\<rparr> (write_names False xs @ rest) =
           load_loop inc \<lparr>section = sn, inheritance = ih, attribute = last (pend # xs), key = ky, value = vl, preprocessor_pair = pp, section_ptr = Some n, parse_action = ATTRIBUTE, line = l, character_pos = p', ignore_current_spaces = True\<rparr>
             \<lparr>section_data = sd(n \<mapsto> s\<lparr>attributes := attributes s @ butlast (pend # xs)\<rparr>), msg_functor = mf, current_file = cf, base_path = bp\<rparr> rest"
  using assms
proof (induction xs arbitrary: pend p sd s)
  case Nil
  then show ?case by (intro exI [of _ p]) (simp add: fun_upd_idem)
next
  case (Cons x xs)
  define s1 where "s1 = s\<lparr>attributes := attributes s @ [pend]\<rparr>"
  define sd1 where "sd1 = sd(n \<mapsto> s1)"
  from Cons.prems have pend: "pend \<noteq> []" and x: "list_all plain x"
    by auto
  have 1: "load_loop inc \<lparr>section = sn, inheritance = ih, attribute = pend, key = ky, value = vl, preprocessor_pair = pp, section_ptr = Some n, parse_action = ATTRIBUTE, line = l, character_pos = p, ignore_current_spaces = True\<rparr> \<lparr>section_data = sd, msg_functor = mf, current_file = cf, base_path = bp\<rparr> (CHR '','' # CHR '' '' # rest) =
      load_loop inc \<lparr>section = sn, inheritance = ih, attribute = [], key = ky, value = vl, preprocessor_pair = pp, section_ptr = Some n, parse_action = ATTRIBUTE, line = l, character_pos = p + 1 + 1, ignore_current_spaces = True\<rparr> \<lparr>section_data = sd1, msg_functor = mf, current_file = cf, base_path = bp\<rparr> rest" for rest
    using pend Cons.prems(2) by (auto simp add: step_defs sd1_def s1_def)
  have 2: "load_loop inc \<lparr>section = sn, inheritance = ih, attribute = [], key = ky, value = vl, preprocessor_pair = pp, section_ptr = Some n, parse_action = ATTRIBUTE, line = l, character_pos = p + 1 + 1, ignore_current_spaces = True\<rparr> \<lparr>section_data = sd1, msg_functor = mf, current_file = cf, base_path = bp\<rparr> (x @ rest) =
      load_loop inc \<lparr>section = sn, inheritance = ih, attribute = x, key = ky, value = vl, preprocessor_pair = pp, section_ptr = Some n, parse_action = ATTRIBUTE, line = l, character_pos = p + 1 + 1 + of_nat (length x), ignore_current_spaces = True\<rparr> \<lparr>section_data = sd1, msg_functor = mf, current_file = cf, base_path = bp\<rparr> rest" for rest
    using loop_plain_attribute [OF x, of "\<lparr>section = sn, inheritance = ih, attribute = [], key = ky, value = vl, preprocessor_pair = pp, section_ptr = Some n, parse_action = ATTRIBUTE, line = l, character_pos = p + 1 + 1, ignore_current_spaces = True\<rparr>" inc "\<lparr>section_data = sd1, msg_functor = mf, current_file = cf, base_path = bp\<rparr>" rest]
    by simp
  have pre: "\<forall>b \<in> set (x # xs). b \<noteq> [] \<and> list_all plain b" "sd1 n = Some s1"
    using Cons.prems by (auto simp: sd1_def)
  from Cons.IH [of x sd1 s1 "p + 1 + 1 + of_nat (length x)", OF pre]
  obtain p' where 3: "\<forall>rest. load_loop inc \<lparr>section = sn, inheritance = ih, attribute = x, key = ky, value = vl, preprocessor_pair = pp, section_ptr = Some n, parse_action = ATTRIBUTE, line = l, character_pos = p + 1 + 1 + of_nat (length x), ignore_current_spaces = True\<rparr> \<lparr>section_data = sd1, msg_functor = mf, current_file = cf, base_path = bp\<rparr> (write_names False xs @ rest) =
           load_loop inc \<lparr>section = sn, inheritance = ih, attribute = last (x # xs), key = ky, value = vl, preprocessor_pair = pp, section_ptr = Some n, parse_action = ATTRIBUTE, line = l, character_pos = p', ignore_current_spaces = True\<rparr>
             \<lparr>section_data = sd1(n \<mapsto> s1\<lparr>attributes := attributes s1 @ butlast (x # xs)\<rparr>), msg_functor = mf, current_file = cf, base_path = bp\<rparr> rest"
    by blast
  have e: "sd1(n \<mapsto> s1\<lparr>attributes := attributes s1 @ butlast (x # xs)\<rparr>)
           = sd(n \<mapsto> s\<lparr>attributes := attributes s @ butlast (pend # x # xs)\<rparr>)"
    by (simp add: sd1_def s1_def)
  show ?case
  proof (intro exI [of _ p'] allI)
    fix rest
    have "load_loop inc \<lparr>section = sn, inheritance = ih, attribute = pend, key = ky, value = vl, preprocessor_pair = pp, section_ptr = Some n, parse_action = ATTRIBUTE, line = l, character_pos = p, ignore_current_spaces = True\<rparr> \<lparr>section_data = sd, msg_functor = mf, current_file = cf, base_path = bp\<rparr> (write_names False (x # xs) @ rest) =
      load_loop inc \<lparr>section = sn, inheritance = ih, attribute = pend, key = ky, value = vl, preprocessor_pair = pp, section_ptr = Some n, parse_action = ATTRIBUTE, line = l, character_pos = p, ignore_current_spaces = True\<rparr> \<lparr>section_data = sd, msg_functor = mf, current_file = cf, base_path = bp\<rparr> (CHR '','' # CHR '' '' # x @ write_names False xs @ rest)"
      by simp
    also have "\<dots> = load_loop inc \<lparr>section = sn, inheritance = ih, attribute = [], key = ky, value = vl, preprocessor_pair = pp, section_ptr = Some n, parse_action = ATTRIBUTE, line = l, character_pos = p + 1 + 1, ignore_current_spaces = True\<rparr> \<lparr>section_data = sd1, msg_functor = mf, current_file = cf, base_path = bp\<rparr> (x @ write_names False xs @ rest)"
      by (rule 1)
    also have "\<dots> = load_loop inc \<lparr>section = sn, inheritance = ih, attribute = x, key = ky, value = vl, preprocessor_pair = pp, section_ptr = Some n, parse_action = ATTRIBUTE, line = l, character_pos = p + 1 + 1 + of_nat (length x), ignore_current_spaces = True\<rparr> \<lparr>section_data = sd1, msg_functor = mf, current_file = cf, base_path = bp\<rparr> (write_names False xs @ rest)"
      by (rule 2)
    also have "\<dots> = load_loop inc \<lparr>section = sn, inheritance = ih, attribute = last (x # xs), key = ky, value = vl, preprocessor_pair = pp, section_ptr = Some n, parse_action = ATTRIBUTE, line = l, character_pos = p', ignore_current_spaces = True\<rparr>
             \<lparr>section_data = sd(n \<mapsto> s\<lparr>attributes := attributes s @ butlast (pend # x # xs)\<rparr>), msg_functor = mf, current_file = cf, base_path = bp\<rparr> rest"
      using 3 unfolding e by blast
    finally show "load_loop inc \<lparr>section = sn, inheritance = ih, attribute = pend, key = ky, value = vl, preprocessor_pair = pp, section_ptr = Some n, parse_action = ATTRIBUTE, line = l, character_pos = p, ignore_current_spaces = True\<rparr> \<lparr>section_data = sd, msg_functor = mf, current_file = cf, base_path = bp\<rparr> (write_names False (x # xs) @ rest) =
           load_loop inc \<lparr>section = sn, inheritance = ih, attribute = last (pend # x # xs), key = ky, value = vl, preprocessor_pair = pp, section_ptr = Some n, parse_action = ATTRIBUTE, line = l, character_pos = p', ignore_current_spaces = True\<rparr>
             \<lparr>section_data = sd(n \<mapsto> s\<lparr>attributes := attributes s @ butlast (pend # x # xs)\<rparr>), msg_functor = mf, current_file = cf, base_path = bp\<rparr> rest"
      by simp
  qed
qed

lemma colon_after_header:
  "load_loop inc \<lparr>section = sn, inheritance = ih, attribute = at, key = ky, value = vl, preprocessor_pair = pp, section_ptr = sp, parse_action = SECTION, line = l, character_pos = p, ignore_current_spaces = True\<rparr> \<lparr>section_data = sd, msg_functor = mf, current_file = cf, base_path = bp\<rparr> ('' : '' @ rest) =
   load_loop inc \<lparr>section = sn, inheritance = ih, attribute = at, key = ky, value = vl, preprocessor_pair = pp, section_ptr = sp, parse_action = INHERITANCE, line = l, character_pos = p + 1 + 1 + 1, ignore_current_spaces = True\<rparr> \<lparr>section_data = sd, msg_functor = mf, current_file = cf, base_path = bp\<rparr> rest"
  by (simp add: step_defs)

lemma equals_after_header:
  "load_loop inc \<lparr>section = sn, inheritance = ih, attribute = at, key = ky, value = vl, preprocessor_pair = pp, section_ptr = sp, parse_action = SECTION, line = l, character_pos = p, ignore_current_spaces = True\<rparr> \<lparr>section_data = sd, msg_functor = mf, current_file = cf, base_path = bp\<rparr> ('' = '' @ rest) =
   load_loop inc \<lparr>section = sn, inheritance = ih, attribute = at, key = ky, value = vl, preprocessor_pair = pp, section_ptr = sp, parse_action = ATTRIBUTE, line = l, character_pos = p + 1 + 1 + 1, ignore_current_spaces = True\<rparr> \<lparr>section_data = sd, msg_functor = mf, current_file = cf, base_path = bp\<rparr> rest"
  by (simp add: step_defs)

lemma equals_after_inheritance:
  assumes "pend \<noteq> []" and "sd pend \<noteq> None" and "sd n = Some s"
  shows "load_loop inc \<lparr>section = sn, inheritance = pend, attribute = at, key = ky, value = vl, preprocessor_pair = pp, section_ptr = Some n, parse_action = INHERITANCE, line = l, character_pos = p, ignore_current_spaces = True\<rparr> \<lparr>section_data = sd, msg_functor = mf, current_file = cf, base_path = bp\<rparr> ('' = '' @ rest) =
   load_loop inc \<lparr>section = sn, inheritance = [], attribute = at, key = ky, value = vl, preprocessor_pair = pp, section_ptr = Some n, parse_action = ATTRIBUTE, line = l, character_pos = p + 1 + 1 + 1, ignore_current_spaces = True\<rparr>
     \<lparr>section_data = sd(n \<mapsto> s\<lparr>inheritances := inheritances s @ [pend]\<rparr>), msg_functor = mf, current_file = cf, base_path = bp\<rparr> rest"
  using assms by (auto simp add: step_defs)

lemma newline_after_header:
  "load_loop inc \<lparr>section = sn, inheritance = ih, attribute = at, key = ky, value = vl, preprocessor_pair = pp, section_ptr = sp, parse_action = SECTION, line = l, character_pos = p, ignore_current_spaces = True\<rparr> \<lparr>section_data = sd, msg_functor = mf, current_file = cf, base_path = bp\<rparr> (nl @ rest) =
   load_loop inc \<lparr>section = sn, inheritance = ih, attribute = at, key = ky, value = vl, preprocessor_pair = pp, section_ptr = sp, parse_action = NEW_LINE, line = l + 1, character_pos = 1, ignore_current_spaces = True\<rparr> \<lparr>section_data = sd, msg_functor = mf, current_file = cf, base_path = bp\<rparr> rest"
  by (simp add: step_defs nl_def)

lemma newline_after_inheritance:
  assumes "pend \<noteq> []" and "sd pend \<noteq> None" and "sd n = Some s"
  shows "load_loop inc \<lparr>section = sn, inheritance = pend, attribute = at, key = ky, value = vl, preprocessor_pair = pp, section_ptr = Some n, parse_action = INHERITANCE, line = l, character_pos = p, ignore_current_spaces = True\<rparr> \<lparr>section_data = sd, msg_functor = mf, current_file = cf, base_path = bp\<rparr> (nl @ rest) =
   load_loop inc \<lparr>section = sn, inheritance = [], attribute = at, key = ky, value = vl, preprocessor_pair = pp, section_ptr = Some n, parse_action = NEW_LINE, line = l + 1, character_pos = 1, ignore_current_spaces = True\<rparr>
     \<lparr>section_data = sd(n \<mapsto> s\<lparr>inheritances := inheritances s @ [pend]\<rparr>), msg_functor = mf, current_file = cf, base_path = bp\<rparr> rest"
  using assms by (auto simp add: step_defs nl_def)

lemma newline_after_attribute:
  assumes "pend \<noteq> []" and "sd n = Some s"
  shows "load_loop inc \<lparr>section = sn, inheritance = ih, attribute = pend, key = ky, value = vl, preprocessor_pair = pp, section_ptr = Some n, parse_action = ATTRIBUTE, line = l, character_pos = p, ignore_current_spaces = True\<rparr> \<lparr>section_data = sd, msg_functor = mf, current_file = cf, base_path = bp\<rparr> (nl @ rest) =
   load_loop inc \<lparr>section = sn, inheritance = ih, attribute = [], key = ky, value = vl, preprocessor_pair = pp, section_ptr = Some n, parse_action = NEW_LINE, line = l + 1, character_pos = 1, ignore_current_spaces = True\<rparr>
     \<lparr>section_data = sd(n \<mapsto> s\<lparr>attributes := attributes s @ [pend]\<rparr>), msg_functor = mf, current_file = cf, base_path = bp\<rparr> rest"
  using assms by (auto simp add: step_defs nl_def)

lemma inheritance_list:
  assumes "\<forall>b \<in> set (x # xs). b \<noteq> [] \<and> list_all plain b \<and> sd b \<noteq> None" and "sd n = Some s"
  shows "\<exists>p'. \<forall>rest. load_loop inc \<lparr>section = sn, inheritance = [], attribute = at, key = ky, value = vl, preprocessor_pair = pp, section_ptr = Some n, parse_action = INHERITANCE, line = l, character_pos = p, ignore_current_spaces = True\<rparr> \<lparr>section_data = sd, msg_functor = mf, current_file = cf, base_path = bp\<rparr> (write_names True (x # xs) @ rest) =
           load_loop inc \<lparr>section = sn, inheritance = last (x # xs), attribute = at, key = ky, value = vl, preprocessor_pair = pp, section_ptr = Some n, parse_action = INHERITANCE, line = l, character_pos = p', ignore_current_spaces = True\<rparr>
             \<lparr>section_data = sd(n \<mapsto> s\<lparr>inheritances := inheritances s @ butlast (x # xs)\<rparr>), msg_functor = mf, current_file = cf, base_path = bp\<rparr> rest"
proof -
  from assms have x: "list_all plain x" by simp
  have 1: "load_loop inc \<lparr>section = sn, inheritance = [], attribute = at, key = ky, value = vl, preprocessor_pair = pp, section_ptr = Some n, parse_action = INHERITANCE, line = l, character_pos = p, ignore_current_spaces = True\<rparr> \<lparr>section_data = sd, msg_functor = mf, current_file = cf, base_path = bp\<rparr> (x @ rest) =
      load_loop inc \<lparr>section = sn, inheritance = x, attribute = at, key = ky, value = vl, preprocessor_pair = pp, section_ptr = Some n, parse_action = INHERITANCE, line = l, character_pos = p + of_nat (length x), ignore_current_spaces = True\<rparr> \<lparr>section_data = sd, msg_functor = mf, current_file = cf, base_path = bp\<rparr> rest" for rest
    using loop_plain_inheritance [OF x, of "\<lparr>section = sn, inheritance = [], attribute = at, key = ky, value = vl, preprocessor_pair = pp, section_ptr = Some n, parse_action = INHERITANCE, line = l, character_pos = p, ignore_current_spaces = True\<rparr>" inc "\<lparr>section_data = sd, msg_functor = mf, current_file = cf, base_path = bp\<rparr>" rest]
    by simp
  from names_inheritance [OF assms, of inc sn at ky vl pp l "p + of_nat (length x)" mf cf bp]
  obtain p' where 2: "\<forall>rest. load_loop inc \<lparr>section = sn, inheritance = x, attribute = at, key = ky, value = vl, preprocessor_pair = pp, section_ptr = Some n, parse_action = INHERITANCE, line = l, character_pos = p + of_nat (length x), ignore_current_spaces = True\<rparr> \<lparr>section_data = sd, msg_functor = mf, current_file = cf, base_path = bp\<rparr> (write_names False xs @ rest) =
           load_loop inc \<lparr>section = sn, inheritance = last (x # xs), attribute = at, key = ky, value = vl, preprocessor_pair = pp, section_ptr = Some n, parse_action = INHERITANCE, line = l, character_pos = p', ignore_current_spaces = True\<rparr>
             \<lparr>section_data = sd(n \<mapsto> s\<lparr>inheritances := inheritances s @ butlast (x # xs)\<rparr>), msg_functor = mf, current_file = cf, base_path = bp\<rparr> rest"
    by blast
  show ?thesis
  proof (intro exI [of _ p'] allI)
    fix rest
    have "load_loop inc \<lparr>section = sn, inheritance = [], attribute = at, key = ky, value = vl, preprocessor_pair = pp, section_ptr = Some n, parse_action = INHERITANCE, line = l, character_pos = p, ignore_current_spaces = True\<rparr> \<lparr>section_data = sd, msg_functor = mf, current_file = cf, base_path = bp\<rparr> (write_names True (x # xs) @ rest) =
      load_loop inc \<lparr>section = sn, inheritance = [], attribute = at, key = ky, value = vl, preprocessor_pair = pp, section_ptr = Some n, parse_action = INHERITANCE, line = l, character_pos = p, ignore_current_spaces = True\<rparr> \<lparr>section_data = sd, msg_functor = mf, current_file = cf, base_path = bp\<rparr> (x @ write_names False xs @ rest)"
      by simp
    also have "\<dots> = load_loop inc \<lparr>section = sn, inheritance = x, attribute = at, key = ky, value = vl, preprocessor_pair = pp, section_ptr = Some n, parse_action = INHERITANCE, line = l, character_pos = p + of_nat (length x), ignore_current_spaces = True\<rparr> \<lparr>section_data = sd, msg_functor = mf, current_file = cf, base_path = bp\<rparr> (write_names False xs @ rest)"
      by (rule 1)
    also have "\<dots> = load_loop inc \<lparr>section = sn, inheritance = last (x # xs), attribute = at, key = ky, value = vl, preprocessor_pair = pp, section_ptr = Some n, parse_action = INHERITANCE, line = l, character_pos = p', ignore_current_spaces = True\<rparr>
             \<lparr>section_data = sd(n \<mapsto> s\<lparr>inheritances := inheritances s @ butlast (x # xs)\<rparr>), msg_functor = mf, current_file = cf, base_path = bp\<rparr> rest"
      using 2 by blast
    finally show "load_loop inc \<lparr>section = sn, inheritance = [], attribute = at, key = ky, value = vl, preprocessor_pair = pp, section_ptr = Some n, parse_action = INHERITANCE, line = l, character_pos = p, ignore_current_spaces = True\<rparr> \<lparr>section_data = sd, msg_functor = mf, current_file = cf, base_path = bp\<rparr> (write_names True (x # xs) @ rest) =
           load_loop inc \<lparr>section = sn, inheritance = last (x # xs), attribute = at, key = ky, value = vl, preprocessor_pair = pp, section_ptr = Some n, parse_action = INHERITANCE, line = l, character_pos = p', ignore_current_spaces = True\<rparr>
             \<lparr>section_data = sd(n \<mapsto> s\<lparr>inheritances := inheritances s @ butlast (x # xs)\<rparr>), msg_functor = mf, current_file = cf, base_path = bp\<rparr> rest" .
  qed
qed

lemma attribute_list:
  assumes "\<forall>b \<in> set (x # xs). b \<noteq> [] \<and> list_all plain b" and "sd n = Some s"
  shows "\<exists>p'. \<forall>rest. load_loop inc \<lparr>section = sn, inheritance = ih, attribute = [], key = ky, value = vl, preprocessor_pair = pp, section_ptr = Some n, parse_action = ATTRIBUTE, line = l, character_pos = p, ignore_current_spaces = True\<rparr> \<lparr>section_data = sd, msg_functor = mf, current_file = cf, base_path = bp\<rparr> (write_names True (x # xs) @ rest) =
           load_loop inc \<lparr>section = sn, inheritance = ih, attribute = last (x # xs), key = ky, value = vl, preprocessor_pair = pp, section_ptr = Some n, parse_action = ATTRIBUTE, line = l, character_pos = p', ignore_current_spaces = True\<rparr>
             \<lparr>section_data = sd(n \<mapsto> s\<lparr>attributes := attributes s @ butlast (x # xs)\<rparr>), msg_functor = mf, current_file = cf, base_path = bp\<rparr> rest"
proof -
  from assms have x: "list_all plain x" by simp
  have 1: "load_loop inc \<lparr>section = sn, inheritance = ih, attribute = [], key = ky, value = vl, preprocessor_pair = pp, section_ptr = Some n, parse_action = ATTRIBUTE, line = l, character_pos = p, ignore_current_spaces = True\<rparr> \<lparr>section_data = sd, msg_functor = mf, current_file = cf, base_path = bp\<rparr> (x @ rest) =
      load_loop inc \<lparr>section = sn, inheritance = ih, attribute = x, key = ky, value = vl, preprocessor_pair = pp, section_ptr = Some n, parse_action = ATTRIBUTE, line = l, character_pos = p + of_nat (length x), ignore_current_spaces = True\<rparr> \<lparr>section_data = sd, msg_functor = mf, current_file = cf, base_path = bp\<rparr> rest" for rest
    using loop_plain_attribute [OF x, of "\<lparr>section = sn, inheritance = ih, attribute = [], key = ky, value = vl, preprocessor_pair = pp, section_ptr = Some n, parse_action = ATTRIBUTE, line = l, character_pos = p, ignore_current_spaces = True\<rparr>" inc "\<lparr>section_data = sd, msg_functor = mf, current_file = cf, base_path = bp\<rparr>" rest]
    by simp
  from names_attribute [of x xs sd n s inc sn ih ky vl pp l "p + of_nat (length x)" mf cf bp, OF assms]
  obtain p' where 2: "\<forall>rest. load_loop inc \<lparr>section = sn, inheritance = ih, attribute = x, key = ky, value = vl, preprocessor_pair = pp, section_ptr = Some n, parse_action = ATTRIBUTE, line = l, character_pos = p + of_nat (length x), ignore_current_spaces = True\<rparr> \<lparr>section_data = sd, msg_functor = mf, current_file = cf, base_path = bp\<rparr> (write_names False xs @ rest) =
           load_loop inc \<lparr>section = sn, inheritance = ih, attribute = last (x # xs), key = ky, value = vl, preprocessor_pair = pp, section_ptr = Some n, parse_action = ATTRIBUTE, line = l, character_pos = p', ignore_current_spaces = True\<rparr>
             \<lparr>section_data = sd(n \<mapsto> s\<lparr>attributes := attributes s @ butlast (x # xs)\<rparr>), msg_functor = mf, current_file = cf, base_path = bp\<rparr> rest"
    by blast
  show ?thesis
  proof (intro exI [of _ p'] allI)
    fix rest
    have "load_loop inc \<lparr>section = sn, inheritance = ih, attribute = [], key = ky, value = vl, preprocessor_pair = pp, section_ptr = Some n, parse_action = ATTRIBUTE, line = l, character_pos = p, ignore_current_spaces = True\<rparr> \<lparr>section_data = sd, msg_functor = mf, current_file = cf, base_path = bp\<rparr> (write_names True (x # xs) @ rest) =
      load_loop inc \<lparr>section = sn, inheritance = ih, attribute = [], key = ky, value = vl, preprocessor_pair = pp, section_ptr = Some n, parse_action = ATTRIBUTE, line = l, character_pos = p, ignore_current_spaces = True\<rparr> \<lparr>section_data = sd, msg_functor = mf, current_file = cf, base_path = bp\<rparr> (x @ write_names False xs @ rest)"
      by simp
    also have "\<dots> = load_loop inc \<lparr>section = sn, inheritance = ih, attribute = x, key = ky, value = vl, preprocessor_pair = pp, section_ptr = Some n, parse_action = ATTRIBUTE, line = l, character_pos = p + of_nat (length x), ignore_current_spaces = True\<rparr> \<lparr>section_data = sd, msg_functor = mf, current_file = cf, base_path = bp\<rparr> (write_names False xs @ rest)"
      by (rule 1)
    also have "\<dots> = load_loop inc \<lparr>section = sn, inheritance = ih, attribute = last (x # xs), key = ky, value = vl, preprocessor_pair = pp, section_ptr = Some n, parse_action = ATTRIBUTE, line = l, character_pos = p', ignore_current_spaces = True\<rparr>
             \<lparr>section_data = sd(n \<mapsto> s\<lparr>attributes := attributes s @ butlast (x # xs)\<rparr>), msg_functor = mf, current_file = cf, base_path = bp\<rparr> rest"
      using 2 by blast
    finally show "load_loop inc \<lparr>section = sn, inheritance = ih, attribute = [], key = ky, value = vl, preprocessor_pair = pp, section_ptr = Some n, parse_action = ATTRIBUTE, line = l, character_pos = p, ignore_current_spaces = True\<rparr> \<lparr>section_data = sd, msg_functor = mf, current_file = cf, base_path = bp\<rparr> (write_names True (x # xs) @ rest) =
           load_loop inc \<lparr>section = sn, inheritance = ih, attribute = last (x # xs), key = ky, value = vl, preprocessor_pair = pp, section_ptr = Some n, parse_action = ATTRIBUTE, line = l, character_pos = p', ignore_current_spaces = True\<rparr>
             \<lparr>section_data = sd(n \<mapsto> s\<lparr>attributes := attributes s @ butlast (x # xs)\<rparr>), msg_functor = mf, current_file = cf, base_path = bp\<rparr> rest" .
  qed
qed

lemma last_in_set_valid:
  assumes "\<forall>b \<in> set (x # xs). P b"
  shows "P (last (x # xs))"
  using assms last_in_set [of "x # xs"] by blast

lemma after_bracket:
  assumes inh: "\<forall>b \<in> set inh. b \<noteq> [] \<and> list_all plain b \<and> sd b \<noteq> None"
    and attrs: "\<forall>b \<in> set attrs. b \<noteq> [] \<and> list_all plain b"
    and n: "sd n = Some s"
  shows "\<exists>l' p'. \<forall>rest.
           load_loop inc \<lparr>section = sn, inheritance = [], attribute = [], key = ky, value = vl, preprocessor_pair = pp, section_ptr = Some n, parse_action = SECTION, line = l, character_pos = p, ignore_current_spaces = True\<rparr> \<lparr>section_data = sd, msg_functor = mf, current_file = cf, base_path = bp\<rparr>
             ((if inh \<noteq> [] then '' : '' @ write_names True inh else [])
              @ (if attrs \<noteq> [] then '' = '' @ write_names True attrs else []) @ nl @ rest) =
           load_loop inc \<lparr>section = sn, inheritance = [], attribute = [], key = ky, value = vl, preprocessor_pair = pp, section_ptr = Some n, parse_action = NEW_LINE, line = l', character_pos = p', ignore_current_spaces = True\<rparr>
             \<lparr>section_data = sd(n \<mapsto> s\<lparr>inheritances := inheritances s @ inh, attributes := attributes s @ attrs\<rparr>), msg_functor = mf, current_file = cf, base_path = bp\<rparr> rest"
proof -
  have A: "\<exists>pa1 pend p1 s1.
      (\<forall>rest. load_loop inc \<lparr>section = sn, inheritance = [], attribute = [], key = ky, value = vl, preprocessor_pair = pp, section_ptr = Some n, parse_action = SECTION, line = l, character_pos = p, ignore_current_spaces = True\<rparr> \<lparr>section_data = sd, msg_functor = mf, current_file = cf, base_path = bp\<rparr>
                ((if inh \<noteq> [] then '' : '' @ write_names True inh else []) @ rest) =
              load_loop inc \<lparr>section = sn, inheritance = pend, attribute = [], key = ky, value = vl, preprocessor_pair = pp, section_ptr = Some n, parse_action = pa1, line = l, character_pos = p1, ignore_current_spaces = True\<rparr> \<lparr>section_data = sd(n \<mapsto> s1), msg_functor = mf, current_file = cf, base_path = bp\<rparr> rest)
      \<and> ((pa1 = SECTION \<and> pend = [] \<and> s1 = s \<and> inh = [])
         \<or> (pa1 = INHERITANCE \<and> pend \<noteq> [] \<and> sd pend \<noteq> None
            \<and> s1\<lparr>inheritances := inheritances s1 @ [pend]\<rparr> = s\<lparr>inheritances := inheritances s @ inh\<rparr>))"
  proof (cases inh)
    case Nil
    show ?thesis
      using Nil n
      by - (rule exI [of _ SECTION], rule exI [of _ "[]"], rule exI [of _ p], rule exI [of _ s], simp add: fun_upd_idem)
  next
    case (Cons x xs)
    from inheritance_list [of x xs sd n s inc sn "[]" ky vl pp l "p + 1 + 1 + 1" mf cf bp] inh n Cons
    obtain p1 where 1: "\<forall>rest. load_loop inc \<lparr>section = sn, inheritance = [], attribute = [], key = ky, value = vl, preprocessor_pair = pp, section_ptr = Some n, parse_action = INHERITANCE, line = l, character_pos = p + 1 + 1 + 1, ignore_current_spaces = True\<rparr> \<lparr>section_data = sd, msg_functor = mf, current_file = cf, base_path = bp\<rparr> (write_names True (x # xs) @ rest) =
           load_loop inc \<lparr>section = sn, inheritance = last (x # xs), attribute = [], key = ky, value = vl, preprocessor_pair = pp, section_ptr = Some n, parse_action = INHERITANCE, line = l, character_pos = p1, ignore_current_spaces = True\<rparr>
             \<lparr>section_data = sd(n \<mapsto> s\<lparr>inheritances := inheritances s @ butlast (x # xs)\<rparr>), msg_functor = mf, current_file = cf, base_path = bp\<rparr> rest"
      by blast
    have v: "last (x # xs) \<noteq> [] \<and> list_all plain (last (x # xs)) \<and> sd (last (x # xs)) \<noteq> None"
      using last_in_set_valid [of x xs "\<lambda>b. b \<noteq> [] \<and> list_all plain b \<and> sd b \<noteq> None"] inh Cons by simp
    have e: "s\<lparr>inheritances := inheritances s @ butlast (x # xs)\<rparr>\<lparr>inheritances :=
               inheritances (s\<lparr>inheritances := inheritances s @ butlast (x # xs)\<rparr>) @ [last (x # xs)]\<rparr>
             = s\<lparr>inheritances := inheritances s @ inh\<rparr>"
      using append_butlast_last_id [of "x # xs"] Cons by simp
    have "\<forall>rest. load_loop inc \<lparr>section = sn, inheritance = [], attribute = [], key = ky, value = vl, preprocessor_pair = pp, section_ptr = Some n, parse_action = SECTION, line = l, character_pos = p, ignore_current_spaces = True\<rparr> \<lparr>section_data = sd, msg_functor = mf, current_file = cf, base_path = bp\<rparr>
                ((if inh \<noteq> [] then '' : '' @ write_names True inh else []) @ rest) =
              load_loop inc \<lparr>section = sn, inheritance = last (x # xs), attribute = [], key = ky, value = vl, preprocessor_pair = pp, section_ptr = Some n, parse_action = INHERITANCE, line = l, character_pos = p1, ignore_current_spaces = True\<rparr>
                \<lparr>section_data = sd(n \<mapsto> s\<lparr>inheritances := inheritances s @ butlast (x # xs)\<rparr>), msg_functor = mf, current_file = cf, base_path = bp\<rparr> rest"
    proof
      fix rest
      have "load_loop inc \<lparr>section = sn, inheritance = [], attribute = [], key = ky, value = vl, preprocessor_pair = pp, section_ptr = Some n, parse_action = SECTION, line = l, character_pos = p, ignore_current_spaces = True\<rparr> \<lparr>section_data = sd, msg_functor = mf, current_file = cf, base_path = bp\<rparr>
                ((if inh \<noteq> [] then '' : '' @ write_names True inh else []) @ rest) =
            load_loop inc \<lparr>section = sn, inheritance = [], attribute = [], key = ky, value = vl, preprocessor_pair = pp, section_ptr = Some n, parse_action = SECTION, line = l, character_pos = p, ignore_current_spaces = True\<rparr> \<lparr>section_data = sd, msg_functor = mf, current_file = cf, base_path = bp\<rparr>
                ('' : '' @ write_names True (x # xs) @ rest)"
        using Cons by simp
      also have "\<dots> = load_loop inc \<lparr>section = sn, inheritance = [], attribute = [], key = ky, value = vl, preprocessor_pair = pp, section_ptr = Some n, parse_action = INHERITANCE, line = l, character_pos = p + 1 + 1 + 1, ignore_current_spaces = True\<rparr> \<lparr>section_data = sd, msg_functor = mf, current_file = cf, base_path = bp\<rparr> (write_names True (x # xs) @ rest)"
        by (rule colon_after_header)
      also have "\<dots> = load_loop inc \<lparr>section = sn, inheritance = last (x # xs), attribute = [], key = ky, value = vl, preprocessor_pair = pp, section_ptr = Some n, parse_action = INHERITANCE, line = l, character_pos = p1, ignore_current_spaces = True\<rparr>
             \<lparr>section_data = sd(n \<mapsto> s\<lparr>inheritances := inheritances s @ butlast (x # xs)\<rparr>), msg_functor = mf, current_file = cf, base_path = bp\<rparr> rest"
        using 1 by blast
      finally show "load_loop inc \<lparr>section = sn, inheritance = [], attribute = [], key = ky, value = vl, preprocessor_pair = pp, section_ptr = Some n, parse_action = SECTION, line = l, character_pos = p, ignore_current_spaces = True\<rparr> \<lparr>section_data = sd, msg_functor = mf, current_file = cf, base_path = bp\<rparr>
                ((if inh \<noteq> [] then '' : '' @ write_names True inh else []) @ rest) =
              load_loop inc \<lparr>section = sn, inheritance = last (x # xs), attribute = [], key = ky, value = vl, preprocessor_pair = pp, section_ptr = Some n, parse_action = INHERITANCE, line = l, character_pos = p1, ignore_current_spaces = True\<rparr>
                \<lparr>section_data = sd(n \<mapsto> s\<lparr>inheritances := inheritances s @ butlast (x # xs)\<rparr>), msg_functor = mf, current_file = cf, base_path = bp\<rparr> rest" .
    qed
    then show ?thesis
      using v e
      by - (rule exI [of _ INHERITANCE], rule exI [of _ "last (x # xs)"], rule exI [of _ p1],
          rule exI [of _ "s\<lparr>inheritances := inheritances s @ butlast (x # xs)\<rparr>"], blast)
  qed
  then obtain pa1 pend p1 s1 where
    a: "\<forall>rest. load_loop inc \<lparr>section = sn, inheritance = [], attribute = [], key = ky, value = vl, preprocessor_pair = pp, section_ptr = Some n, parse_action = SECTION, line = l, character_pos = p, ignore_current_spaces = True\<rparr> \<lparr>section_data = sd, msg_functor = mf, current_file = cf, base_path = bp\<rparr>
                ((if inh \<noteq> [] then '' : '' @ write_names True inh else []) @ rest) =
              load_loop inc \<lparr>section = sn, inheritance = pend, attribute = [], key = ky, value = vl, preprocessor_pair = pp, section_ptr = Some n, parse_action = pa1, line = l, character_pos = p1, ignore_current_spaces = True\<rparr> \<lparr>section_data = sd(n \<mapsto> s1), msg_functor = mf, current_file = cf, base_path = bp\<rparr> rest"
    and c: "(pa1 = SECTION \<and> pend = [] \<and> s1 = s \<and> inh = [])
         \<or> (pa1 = INHERITANCE \<and> pend \<noteq> [] \<and> sd pend \<noteq> None
            \<and> s1\<lparr>inheritances := inheritances s1 @ [pend]\<rparr> = s\<lparr>inheritances := inheritances s @ inh\<rparr>)"
    by blast
  define s2 where "s2 = s\<lparr>inheritances := inheritances s @ inh\<rparr>"
  have pendv: "pa1 = INHERITANCE \<Longrightarrow> (sd(n \<mapsto> s1)) pend \<noteq> None"
    using c by auto
  have B: "\<exists>l' p'. \<forall>rest. load_loop inc \<lparr>section = sn, inheritance = pend, attribute = [], key = ky, value = vl, preprocessor_pair = pp, section_ptr = Some n, parse_action = pa1, line = l, character_pos = p1, ignore_current_spaces = True\<rparr> \<lparr>section_data = sd(n \<mapsto> s1), msg_functor = mf, current_file = cf, base_path = bp\<rparr>
             ((if attrs \<noteq> [] then '' = '' @ write_names True attrs else []) @ nl @ rest) =
           load_loop inc \<lparr>section = sn, inheritance = [], attribute = [], key = ky, value = vl, preprocessor_pair = pp, section_ptr = Some n, parse_action = NEW_LINE, line = l', character_pos = p', ignore_current_spaces = True\<rparr>
             \<lparr>section_data = sd(n \<mapsto> s2\<lparr>attributes := attributes s2 @ attrs\<rparr>), msg_functor = mf, current_file = cf, base_path = bp\<rparr> rest"
  proof (cases attrs)
    case Nil
    from c show ?thesis
    proof (elim disjE conjE)
      assume h: "pa1 = SECTION" "pend = []" "s1 = s" "inh = []"
      show ?thesis
        using h Nil newline_after_header [of inc sn "[]" "[]" ky vl pp "Some n" l p1 "sd(n \<mapsto> s1)" mf cf bp]
        by - (rule exI [of _ "l + 1"], rule exI [of _ 1], simp add: s2_def)
    next
      assume h: "pa1 = INHERITANCE" "pend \<noteq> []" "sd pend \<noteq> None"
        "s1\<lparr>inheritances := inheritances s1 @ [pend]\<rparr> = s\<lparr>inheritances := inheritances s @ inh\<rparr>"
      show ?thesis
        using h Nil pendv
          newline_after_inheritance [of pend "sd(n \<mapsto> s1)" n s1 inc sn "[]" ky vl pp l p1 mf cf bp]
        by - (rule exI [of _ "l + 1"], rule exI [of _ 1], simp add: s2_def)
    qed
  next
    case (Cons y ys)
    have E: "\<forall>rest. load_loop inc \<lparr>section = sn, inheritance = pend, attribute = [], key = ky, value = vl, preprocessor_pair = pp, section_ptr = Some n, parse_action = pa1, line = l, character_pos = p1, ignore_current_spaces = True\<rparr> \<lparr>section_data = sd(n \<mapsto> s1), msg_functor = mf, current_file = cf, base_path = bp\<rparr> ('' = '' @ rest) =
        load_loop inc \<lparr>section = sn, inheritance = [], attribute = [], key = ky, value = vl, preprocessor_pair = pp, section_ptr = Some n, parse_action = ATTRIBUTE, line = l, character_pos = p1 + 1 + 1 + 1, ignore_current_spaces = True\<rparr> \<lparr>section_data = sd(n \<mapsto> s2), msg_functor = mf, current_file = cf, base_path = bp\<rparr> rest"
      using c
    proof (elim disjE conjE)
      assume h: "pa1 = SECTION" "pend = []" "s1 = s" "inh = []"
      show ?thesis
        using h equals_after_header [of inc sn "[]" "[]" ky vl pp "Some n" l p1 "sd(n \<mapsto> s1)" mf cf bp]
        by (simp add: s2_def)
    next
      assume h: "pa1 = INHERITANCE" "pend \<noteq> []" "sd pend \<noteq> None"
        "s1\<lparr>inheritances := inheritances s1 @ [pend]\<rparr> = s\<lparr>inheritances := inheritances s @ inh\<rparr>"
      show ?thesis
        using h pendv
          equals_after_inheritance [of pend "sd(n \<mapsto> s1)" n s1 inc sn "[]" ky vl pp l p1 mf cf bp]
        by (simp add: s2_def)
    qed
    from attribute_list [of y ys "sd(n \<mapsto> s2)" n s2 inc sn "[]" ky vl pp l "p1 + 1 + 1 + 1" mf cf bp] attrs Cons
    obtain p2 where 2: "\<forall>rest. load_loop inc \<lparr>section = sn, inheritance = [], attribute = [], key = ky, value = vl, preprocessor_pair = pp, section_ptr = Some n, parse_action = ATTRIBUTE, line = l, character_pos = p1 + 1 + 1 + 1, ignore_current_spaces = True\<rparr> \<lparr>section_data = sd(n \<mapsto> s2), msg_functor = mf, current_file = cf, base_path = bp\<rparr> (write_names True (y # ys) @ rest) =
           load_loop inc \<lparr>section = sn, inheritance = [], attribute = last (y # ys), key = ky, value = vl, preprocessor_pair = pp, section_ptr = Some n, parse_action = ATTRIBUTE, line = l, character_pos = p2, ignore_current_spaces = True\<rparr>
             \<lparr>section_data = sd(n \<mapsto> s2\<lparr>attributes := attributes s2 @ butlast (y # ys)\<rparr>), msg_functor = mf, current_file = cf, base_path = bp\<rparr> rest"
      by auto
    have v: "last (y # ys) \<noteq> []"
      using last_in_set_valid [of y ys "\<lambda>b. b \<noteq> [] \<and> list_all plain b"] attrs Cons by simp
    have 3: "load_loop inc \<lparr>section = sn, inheritance = [], attribute = last (y # ys), key = ky, value = vl, preprocessor_pair = pp, section_ptr = Some n, parse_action = ATTRIBUTE, line = l, character_pos = p2, ignore_current_spaces = True\<rparr>
             \<lparr>section_data = sd(n \<mapsto> s2\<lparr>attributes := attributes s2 @ butlast (y # ys)\<rparr>), msg_functor = mf, current_file = cf, base_path = bp\<rparr> (nl @ rest) =
          load_loop inc \<lparr>section = sn, inheritance = [], attribute = [], key = ky, value = vl, preprocessor_pair = pp, section_ptr = Some n, parse_action = NEW_LINE, line = l + 1, character_pos = 1, ignore_current_spaces = True\<rparr>
             \<lparr>section_data = sd(n \<mapsto> s2\<lparr>attributes := attributes s2 @ attrs\<rparr>), msg_functor = mf, current_file = cf, base_path = bp\<rparr> rest" for rest
      using newline_after_attribute [of "last (y # ys)" "sd(n \<mapsto> s2\<lparr>attributes := attributes s2 @ butlast (y # ys)\<rparr>)" n
          "s2\<lparr>attributes := attributes s2 @ butlast (y # ys)\<rparr>" inc sn "[]" ky vl pp l p2 mf cf bp] v
        append_butlast_last_id [of "y # ys"] Cons
      by simp
    show ?thesis
    proof (rule exI [of _ "l + 1"], rule exI [of _ 1], rule allI)
      fix rest
      have "load_loop inc \<lparr>section = sn, inheritance = pend, attribute = [], key = ky, value = vl, preprocessor_pair = pp, section_ptr = Some n, parse_action = pa1, line = l, character_pos = p1, ignore_current_spaces = True\<rparr> \<lparr>section_data = sd(n \<mapsto> s1), msg_functor = mf, current_file = cf, base_path = bp\<rparr>
             ((if attrs \<noteq> [] then '' = '' @ write_names True attrs else []) @ nl @ rest) =
            load_loop inc \<lparr>section = sn, inheritance = pend, attribute = [], key = ky, value = vl, preprocessor_pair = pp, section_ptr = Some n, parse_action = pa1, line = l, character_pos = p1, ignore_current_spaces = True\<rparr> \<lparr>section_data = sd(n \<mapsto> s1), msg_functor = mf, current_file = cf, base_path = bp\<rparr>
             ('' = '' @ write_names True (y # ys) @ nl @ rest)"
        using Cons by simp
      also have "\<dots> = load_loop inc \<lparr>section = sn, inheritance = [], attribute = [], key = ky, value = vl, preprocessor_pair = pp, section_ptr = Some n, parse_action = ATTRIBUTE, line = l, character_pos = p1 + 1 + 1 + 1, ignore_current_spaces = True\<rparr> \<lparr>section_data = sd(n \<mapsto> s2), msg_functor = mf, current_file = cf, base_path = bp\<rparr> (write_names True (y # ys) @ nl @ rest)"
        using E by blast
      also have "\<dots> = load_loop inc \<lparr>section = sn, inheritance = [], attribute = last (y # ys), key = ky, value = vl, preprocessor_pair = pp, section_ptr = Some n, parse_action = ATTRIBUTE, line = l, character_pos = p2, ignore_current_spaces = True\<rparr>
             \<lparr>section_data = sd(n \<mapsto> s2\<lparr>attributes := attributes s2 @ butlast (y # ys)\<rparr>), msg_functor = mf, current_file = cf, base_path = bp\<rparr> (nl @ rest)"
        using 2 by blast
      also have "\<dots> = load_loop inc \<lparr>section = sn, inheritance = [], attribute = [], key = ky, value = vl, preprocessor_pair = pp, section_ptr = Some n, parse_action = NEW_LINE, line = l + 1, character_pos = 1, ignore_current_spaces = True\<rparr>
             \<lparr>section_data = sd(n \<mapsto> s2\<lparr>attributes := attributes s2 @ attrs\<rparr>), msg_functor = mf, current_file = cf, base_path = bp\<rparr> rest"
        by (rule 3)
      finally show "load_loop inc \<lparr>section = sn, inheritance = pend, attribute = [], key = ky, value = vl, preprocessor_pair = pp, section_ptr = Some n, parse_action = pa1, line = l, character_pos = p1, ignore_current_spaces = True\<rparr> \<lparr>section_data = sd(n \<mapsto> s1), msg_functor = mf, current_file = cf, base_path = bp\<rparr>
             ((if attrs \<noteq> [] then '' = '' @ write_names True attrs else []) @ nl @ rest) =
           load_loop inc \<lparr>section = sn, inheritance = [], attribute = [], key = ky, value = vl, preprocessor_pair = pp, section_ptr = Some n, parse_action = NEW_LINE, line = l + 1, character_pos = 1, ignore_current_spaces = True\<rparr>
             \<lparr>section_data = sd(n \<mapsto> s2\<lparr>attributes := attributes s2 @ attrs\<rparr>), msg_functor = mf, current_file = cf, base_path = bp\<rparr> rest" .
    qed
  qed
  then obtain l' p' where b: "\<forall>rest. load_loop inc \<lparr>section = sn, inheritance = pend, attribute = [], key = ky, value = vl, preprocessor_pair = pp, section_ptr = Some n, parse_action = pa1, line = l, character_pos = p1, ignore_current_spaces = True\<rparr> \<lparr>section_data = sd(n \<mapsto> s1), msg_functor = mf, current_file = cf, base_path = bp\<rparr>
             ((if attrs \<noteq> [] then '' = '' @ write_names True attrs else []) @ nl @ rest) =
           load_loop inc \<lparr>section = sn, inheritance = [], attribute = [], key = ky, value = vl, preprocessor_pair = pp, section_ptr = Some n, parse_action = NEW_LINE, line = l', character_pos = p', ignore_current_spaces = True\<rparr>
             \<lparr>section_data = sd(n \<mapsto> s2\<lparr>attributes := attributes s2 @ attrs\<rparr>), msg_functor = mf, current_file = cf, base_path = bp\<rparr> rest"
    by blast
  have fin: "s2\<lparr>attributes := attributes s2 @ attrs\<rparr>
             = s\<lparr>inheritances := inheritances s @ inh, attributes := attributes s @ attrs\<rparr>"
    by (simp add: s2_def)
  show ?thesis
  proof (rule exI [of _ l'], rule exI [of _ p'], rule allI)
    fix rest
    have "load_loop inc \<lparr>section = sn, inheritance = [], attribute = [], key = ky, value = vl, preprocessor_pair = pp, section_ptr = Some n, parse_action = SECTION, line = l, character_pos = p, ignore_current_spaces = True\<rparr> \<lparr>section_data = sd, msg_functor = mf, current_file = cf, base_path = bp\<rparr>
             ((if inh \<noteq> [] then '' : '' @ write_names True inh else [])
              @ (if attrs \<noteq> [] then '' = '' @ write_names True attrs else []) @ nl @ rest) =
          load_loop inc \<lparr>section = sn, inheritance = pend, attribute = [], key = ky, value = vl, preprocessor_pair = pp, section_ptr = Some n, parse_action = pa1, line = l, character_pos = p1, ignore_current_spaces = True\<rparr> \<lparr>section_data = sd(n \<mapsto> s1), msg_functor = mf, current_file = cf, base_path = bp\<rparr>
             ((if attrs \<noteq> [] then '' = '' @ write_names True attrs else []) @ nl @ rest)"
      using a by blast
    also have "\<dots> = load_loop inc \<lparr>section = sn, inheritance = [], attribute = [], key = ky, value = vl, preprocessor_pair = pp, section_ptr = Some n, parse_action = NEW_LINE, line = l', character_pos = p', ignore_current_spaces = True\<rparr>
             \<lparr>section_data = sd(n \<mapsto> s2\<lparr>attributes := attributes s2 @ attrs\<rparr>), msg_functor = mf, current_file = cf, base_path = bp\<rparr> rest"
      using b by blast
    finally show "load_loop inc \<lparr>section = sn, inheritance = [], attribute = [], key = ky, value = vl, preprocessor_pair = pp, section_ptr = Some n, parse_action = SECTION, line = l, character_pos = p, ignore_current_spaces = True\<rparr> \<lparr>section_data = sd, msg_functor = mf, current_file = cf, base_path = bp\<rparr>
             ((if inh \<noteq> [] then '' : '' @ write_names True inh else [])
              @ (if attrs \<noteq> [] then '' = '' @ write_names True attrs else []) @ nl @ rest) =
           load_loop inc \<lparr>section = sn, inheritance = [], attribute = [], key = ky, value = vl, preprocessor_pair = pp, section_ptr = Some n, parse_action = NEW_LINE, line = l', character_pos = p', ignore_current_spaces = True\<rparr>
             \<lparr>section_data = sd(n \<mapsto> s\<lparr>inheritances := inheritances s @ inh, attributes := attributes s @ attrs\<rparr>), msg_functor = mf, current_file = cf, base_path = bp\<rparr> rest"
      unfolding fin .
  qed
qed

lemma filter_plain_id: "list_all plain cs \<Longrightarrow> filter plain cs = cs"
  by (induction cs) simp_all

lemma filter_not_blank_id: "list_all plain cs \<Longrightarrow> filter (\<lambda>c. \<not> blank c) cs = cs"
  by (induction cs) (auto dest: blank_not_plain)

lemma plain_no_comma: "list_all plain cs \<Longrightarrow> CHR '','' \<notin> set cs"
  using comma_not_plain by (auto simp: list_all_iff)

lemma list_all_plain_weaken:
  "list_all plain cs \<Longrightarrow> list_all (\<lambda>c. plain c \<or> blank c) cs"
  "list_all plain cs \<Longrightarrow> list_all (\<lambda>c. plain c \<or> blank c \<or> c = CHR '','') cs"
  by (simp_all add: list_all_iff)

lemma key_value_line:
  assumes k: "k \<noteq> []" "list_all plain k" and v: "list_all plain v"
    and n: "sd n = Some s" and fresh: "values s k = None"
  shows "load_loop inc \<lparr>section = sn, inheritance = ih, attribute = at, key = [], value = [], preprocessor_pair = pp, section_ptr = Some n, parse_action = NEW_LINE, line = l, character_pos = p, ignore_current_spaces = True\<rparr> \<lparr>section_data = sd, msg_functor = mf, current_file = cf, base_path = bp\<rparr> (k @ '' = '' @ v @ nl @ rest) =
         load_loop inc \<lparr>section = sn, inheritance = ih, attribute = at, key = [], value = [], preprocessor_pair = pp, section_ptr = Some n, parse_action = NEW_LINE, line = l + 1, character_pos = 1, ignore_current_spaces = True\<rparr>
           \<lparr>section_data = sd(n \<mapsto> s\<lparr>values := (values s)(k \<mapsto> v)\<rparr>), msg_functor = mf, current_file = cf, base_path = bp\<rparr> rest"
proof -
  have ex: "list_ex plain (k @ '' '')"
    using k by (cases k) simp_all
  have 1: "load_loop inc \<lparr>section = sn, inheritance = ih, attribute = at, key = [], value = [], preprocessor_pair = pp, section_ptr = Some n, parse_action = NEW_LINE, line = l, character_pos = p, ignore_current_spaces = True\<rparr> \<lparr>section_data = sd, msg_functor = mf, current_file = cf, base_path = bp\<rparr> ((k @ '' '') @ ''='' @ ('' '' @ v) @ nl @ rest) =
           load_loop inc \<lparr>section = sn, inheritance = ih, attribute = at, key = k, value = [], preprocessor_pair = pp, section_ptr = Some n, parse_action = KEY, line = l, character_pos = p + of_nat (length k) + 1, ignore_current_spaces = True\<rparr> \<lparr>section_data = sd, msg_functor = mf, current_file = cf, base_path = bp\<rparr> (''='' @ ('' '' @ v) @ nl @ rest)"
    using loop_key_part [of "k @ '' ''" "\<lparr>section = sn, inheritance = ih, attribute = at, key = [], value = [], preprocessor_pair = pp, section_ptr = Some n, parse_action = NEW_LINE, line = l, character_pos = p, ignore_current_spaces = True\<rparr>" inc "\<lparr>section_data = sd, msg_functor = mf, current_file = cf, base_path = bp\<rparr>" "''='' @ ('' '' @ v) @ nl @ rest"]
      ex list_all_plain_weaken(1) [OF k(2)] filter_plain_id [OF k(2)] blank_not_plain [of "CHR '' ''"]
    by (simp add: blank_def ac_simps)
  have 2: "load_loop inc \<lparr>section = sn, inheritance = ih, attribute = at, key = k, value = [], preprocessor_pair = pp, section_ptr = Some n, parse_action = KEY, line = l, character_pos = p + of_nat (length k) + 1, ignore_current_spaces = True\<rparr> \<lparr>section_data = sd, msg_functor = mf, current_file = cf, base_path = bp\<rparr> (''='' @ ('' '' @ v) @ nl @ rest) =
           load_loop inc \<lparr>section = sn, inheritance = ih, attribute = at, key = k, value = [], preprocessor_pair = pp, section_ptr = Some n, parse_action = VALUE, line = l, character_pos = p + of_nat (length k) + 1 + 1, ignore_current_spaces = True\<rparr>
             \<lparr>section_data = sd(n \<mapsto> s\<lparr>values := (values s)(k \<mapsto> [])\<rparr>), msg_functor = mf, current_file = cf, base_path = bp\<rparr> (('' '' @ v) @ nl @ rest)"
    using n fresh by (simp add: step_defs)
  have 3: "load_loop inc \<lparr>section = sn, inheritance = ih, attribute = at, key = k, value = [], preprocessor_pair = pp, section_ptr = Some n, parse_action = VALUE, line = l, character_pos = p + of_nat (length k) + 1 + 1, ignore_current_spaces = True\<rparr>
             \<lparr>section_data = sd(n \<mapsto> s\<lparr>values := (values s)(k \<mapsto> [])\<rparr>), msg_functor = mf, current_file = cf, base_path = bp\<rparr> (('' '' @ v) @ nl @ rest) =
           load_loop inc \<lparr>section = sn, inheritance = ih, attribute = at, key = k, value = v, preprocessor_pair = pp, section_ptr = Some n, parse_action = VALUE, line = l, character_pos = p + of_nat (length k) + 1 + 1 + 1 + of_nat (length v), ignore_current_spaces = True\<rparr>
             \<lparr>section_data = sd(n \<mapsto> s\<lparr>values := (values s)(k \<mapsto> [])\<rparr>), msg_functor = mf, current_file = cf, base_path = bp\<rparr> (nl @ rest)"
    using loop_value_part [of "'' '' @ v" "\<lparr>section = sn, inheritance = ih, attribute = at, key = k, value = [], preprocessor_pair = pp, section_ptr = Some n, parse_action = VALUE, line = l, character_pos = p + of_nat (length k) + 1 + 1, ignore_current_spaces = True\<rparr>" inc
        "\<lparr>section_data = sd(n \<mapsto> s\<lparr>values := (values s)(k \<mapsto> [])\<rparr>), msg_functor = mf, current_file = cf, base_path = bp\<rparr>" "nl @ rest"]
      list_all_plain_weaken(2) [OF v] filter_not_blank_id [OF v] plain_no_comma [OF v]
    by (simp add: blank_def ac_simps)
  have 4: "load_loop inc \<lparr>section = sn, inheritance = ih, attribute = at, key = k, value = v, preprocessor_pair = pp, section_ptr = Some n, parse_action = VALUE, line = l, character_pos = p + of_nat (length k) + 1 + 1 + 1 + of_nat (length v), ignore_current_spaces = True\<rparr>
             \<lparr>section_data = sd(n \<mapsto> s\<lparr>values := (values s)(k \<mapsto> [])\<rparr>), msg_functor = mf, current_file = cf, base_path = bp\<rparr> (nl @ rest) =
           load_loop inc \<lparr>section = sn, inheritance = ih, attribute = at, key = [], value = [], preprocessor_pair = pp, section_ptr = Some n, parse_action = NEW_LINE, line = l + 1, character_pos = 1, ignore_current_spaces = True\<rparr>
             \<lparr>section_data = sd(n \<mapsto> s\<lparr>values := (values s)(k \<mapsto> v)\<rparr>), msg_functor = mf, current_file = cf, base_path = bp\<rparr> rest"
    by (simp add: step_defs nl_def)
  have "k @ '' = '' @ v @ nl @ rest = (k @ '' '') @ ''='' @ ('' '' @ v) @ nl @ rest"
    by simp
  then show ?thesis
    using 1 2 3 4 by (simp only:)
qed

lemma blank_line:
  "load_loop inc \<lparr>section = sn, inheritance = ih, attribute = at, key = ky, value = vl, preprocessor_pair = pp, section_ptr = sp, parse_action = NEW_LINE, line = l, character_pos = p, ignore_current_spaces = True\<rparr> \<lparr>section_data = sd, msg_functor = mf, current_file = cf, base_path = bp\<rparr> (nl @ rest) =
   load_loop inc \<lparr>section = sn, inheritance = ih, attribute = at, key = ky, value = vl, preprocessor_pair = pp, section_ptr = sp, parse_action = NEW_LINE, line = l + 1, character_pos = 1, ignore_current_spaces = True\<rparr> \<lparr>section_data = sd, msg_functor = mf, current_file = cf, base_path = bp\<rparr> rest"
  by (simp add: step_defs nl_def)

lemma key_value_lines:
  assumes "distinct ks"
    and "\<forall>k \<in> set ks. k \<noteq> [] \<and> list_all plain k \<and> list_all plain (f k) \<and> values s k = None"
    and "sd n = Some s"
  shows "\<exists>l' p'. \<forall>rest.
           load_loop inc \<lparr>section = sn, inheritance = ih, attribute = at, key = [], value = [], preprocessor_pair = pp, section_ptr = Some n, parse_action = NEW_LINE, line = l, character_pos = p, ignore_current_spaces = True\<rparr> \<lparr>section_data = sd, msg_functor = mf, current_file = cf, base_path = bp\<rparr>
             (concat (map (\<lambda>k. k @ '' = '' @ f k @ nl) ks) @ rest) =
           load_loop inc \<lparr>section = sn, inheritance = ih, attribute = at, key = [], value = [], preprocessor_pair = pp, section_ptr = Some n, parse_action = NEW_LINE, line = l', character_pos = p', ignore_current_spaces = True\<rparr>
             \<lparr>section_data = sd(n \<mapsto> s\<lparr>values := (\<lambda>k. if k \<in> set ks then Some (f k) else values s k)\<rparr>), msg_functor = mf, current_file = cf, base_path = bp\<rparr> rest"
  using assms
proof (induction ks arbitrary: s sd l p)
  case Nil
  then show ?case
    by - (rule exI [of _ l], rule exI [of _ p], simp add: fun_upd_idem)
next
  case (Cons k ks)
  define s1 where "s1 = s\<lparr>values := (values s)(k \<mapsto> f k)\<rparr>"
  have pre: "distinct ks"
    "\<forall>k' \<in> set ks. k' \<noteq> [] \<and> list_all plain k' \<and> list_all plain (f k') \<and> values s1 k' = None"
    "(sd(n \<mapsto> s1)) n = Some s1"
    using Cons.prems by (auto simp: s1_def)
  from Cons.IH [of s1 "sd(n \<mapsto> s1)" "l + 1" 1, OF pre]
  obtain l' p' where ih: "\<forall>rest.
           load_loop inc \<lparr>section = sn, inheritance = ih, attribute = at, key = [], value = [], preprocessor_pair = pp, section_ptr = Some n, parse_action = NEW_LINE, line = l + 1, character_pos = 1, ignore_current_spaces = True\<rparr> \<lparr>section_data = sd(n \<mapsto> s1), msg_functor = mf, current_file = cf, base_path = bp\<rparr>
             (concat (map (\<lambda>k. k @ '' = '' @ f k @ nl) ks) @ rest) =
           load_loop inc \<lparr>section = sn, inheritance = ih, attribute = at, key = [], value = [], preprocessor_pair = pp, section_ptr = Some n, parse_action = NEW_LINE, line = l', character_pos = p', ignore_current_spaces = True\<rparr>
             \<lparr>section_data = sd(n \<mapsto> s1\<lparr>values := (\<lambda>k. if k \<in> set ks then Some (f k) else values s1 k)\<rparr>), msg_functor = mf, current_file = cf, base_path = bp\<rparr> rest"
    unfolding fun_upd_upd by blast
  have e: "s1\<lparr>values := (\<lambda>k. if k \<in> set ks then Some (f k) else values s1 k)\<rparr>
           = s\<lparr>values := (\<lambda>k'. if k' \<in> set (k # ks) then Some (f k') else values s k')\<rparr>"
    by (auto simp: s1_def fun_eq_iff)
  have kl: "load_loop inc \<lparr>section = sn, inheritance = ih, attribute = at, key = [], value = [], preprocessor_pair = pp, section_ptr = Some n, parse_action = NEW_LINE, line = l, character_pos = p, ignore_current_spaces = True\<rparr> \<lparr>section_data = sd, msg_functor = mf, current_file = cf, base_path = bp\<rparr> (k @ '' = '' @ f k @ nl @ rest) =
         load_loop inc \<lparr>section = sn, inheritance = ih, attribute = at, key = [], value = [], preprocessor_pair = pp, section_ptr = Some n, parse_action = NEW_LINE, line = l + 1, character_pos = 1, ignore_current_spaces = True\<rparr>
           \<lparr>section_data = sd(n \<mapsto> s1), msg_functor = mf, current_file = cf, base_path = bp\<rparr> rest" for rest
    unfolding s1_def
    using Cons.prems by (intro key_value_line) simp_all
  show ?case
  proof (rule exI [of _ l'], rule exI [of _ p'], rule allI)
    fix rest
    have "load_loop inc \<lparr>section = sn, inheritance = ih, attribute = at, key = [], value = [], preprocessor_pair = pp, section_ptr = Some n, parse_action = NEW_LINE, line = l, character_pos = p, ignore_current_spaces = True\<rparr> \<lparr>section_data = sd, msg_functor = mf, current_file = cf, base_path = bp\<rparr>
             (concat (map (\<lambda>k. k @ '' = '' @ f k @ nl) (k # ks)) @ rest) =
          load_loop inc \<lparr>section = sn, inheritance = ih, attribute = at, key = [], value = [], preprocessor_pair = pp, section_ptr = Some n, parse_action = NEW_LINE, line = l, character_pos = p, ignore_current_spaces = True\<rparr> \<lparr>section_data = sd, msg_functor = mf, current_file = cf, base_path = bp\<rparr>
             (k @ '' = '' @ f k @ nl @ concat (map (\<lambda>k. k @ '' = '' @ f k @ nl) ks) @ rest)"
      by simp
    also have "\<dots> = load_loop inc \<lparr>section = sn, inheritance = ih, attribute = at, key = [], value = [], preprocessor_pair = pp, section_ptr = Some n, parse_action = NEW_LINE, line = l + 1, character_pos = 1, ignore_current_spaces = True\<rparr> \<lparr>section_data = sd(n \<mapsto> s1), msg_functor = mf, current_file = cf, base_path = bp\<rparr>
             (concat (map (\<lambda>k. k @ '' = '' @ f k @ nl) ks) @ rest)"
      by (rule kl)
    also have "\<dots> = load_loop inc \<lparr>section = sn, inheritance = ih, attribute = at, key = [], value = [], preprocessor_pair = pp, section_ptr = Some n, parse_action = NEW_LINE, line = l', character_pos = p', ignore_current_spaces = True\<rparr>
             \<lparr>section_data = sd(n \<mapsto> s1\<lparr>values := (\<lambda>k. if k \<in> set ks then Some (f k) else values s1 k)\<rparr>), msg_functor = mf, current_file = cf, base_path = bp\<rparr> rest"
      using ih by blast
    finally show "load_loop inc \<lparr>section = sn, inheritance = ih, attribute = at, key = [], value = [], preprocessor_pair = pp, section_ptr = Some n, parse_action = NEW_LINE, line = l, character_pos = p, ignore_current_spaces = True\<rparr> \<lparr>section_data = sd, msg_functor = mf, current_file = cf, base_path = bp\<rparr>
             (concat (map (\<lambda>k. k @ '' = '' @ f k @ nl) (k # ks)) @ rest) =
           load_loop inc \<lparr>section = sn, inheritance = ih, attribute = at, key = [], value = [], preprocessor_pair = pp, section_ptr = Some n, parse_action = NEW_LINE, line = l', character_pos = p', ignore_current_spaces = True\<rparr>
             \<lparr>section_data = sd(n \<mapsto> s\<lparr>values := (\<lambda>k'. if k' \<in> set (k # ks) then Some (f k') else values s k')\<rparr>), msg_functor = mf, current_file = cf, base_path = bp\<rparr> rest"
      unfolding e .
  qed
qed

lemma header_line:
  assumes name: "list_all plain n" and fresh: "sd n = None"
    and inh: "\<forall>b \<in> set inh. b \<noteq> [] \<and> list_all plain b \<and> (sd b \<noteq> None \<or> b = n)"
    and attrs: "\<forall>b \<in> set attrs. b \<noteq> [] \<and> list_all plain b"
  shows "\<exists>l' p'. \<forall>rest.
           load_loop inc \<lparr>section = sn, inheritance = [], attribute = [], key = ky, value = vl, preprocessor_pair = pp, section_ptr = sp, parse_action = NEW_LINE, line = l, character_pos = p, ignore_current_spaces = ig\<rparr> \<lparr>section_data = sd, msg_functor = mf, current_file = cf, base_path = bp\<rparr> (header_text n inh attrs @ rest) =
           load_loop inc \<lparr>section = n, inheritance = [], attribute = [], key = ky, value = vl, preprocessor_pair = pp, section_ptr = Some n, parse_action = NEW_LINE, line = l', character_pos = p', ignore_current_spaces = True\<rparr>
             \<lparr>section_data = sd(n \<mapsto> \<lparr>inheritances = inh, attributes = attrs, values = Map.empty\<rparr>), msg_functor = mf, current_file = cf, base_path = bp\<rparr> rest"
proof -
  from header_open [of n sd inc sn "[]" "[]" ky vl pp sp l p ig mf cf bp, OF name fresh]
  obtain p1 where 1: "\<forall>rest. load_loop inc \<lparr>section = sn, inheritance = [], attribute = [], key = ky, value = vl, preprocessor_pair = pp, section_ptr = sp, parse_action = NEW_LINE, line = l, character_pos = p, ignore_current_spaces = ig\<rparr> \<lparr>section_data = sd, msg_functor = mf, current_file = cf, base_path = bp\<rparr> (''['' @ n @ '']'' @ rest) =
           load_loop inc \<lparr>section = n, inheritance = [], attribute = [], key = ky, value = vl, preprocessor_pair = pp, section_ptr = Some n, parse_action = SECTION, line = l, character_pos = p1, ignore_current_spaces = True\<rparr>
             \<lparr>section_data = sd(n \<mapsto> Section_new), msg_functor = mf, current_file = cf, base_path = bp\<rparr> rest"
    by blast
  have inh': "\<forall>b \<in> set inh. b \<noteq> [] \<and> list_all plain b \<and> (sd(n \<mapsto> Section_new)) b \<noteq> None"
    using inh by auto
  have n': "(sd(n \<mapsto> Section_new)) n = Some Section_new"
    by simp
  from after_bracket [of inh "sd(n \<mapsto> Section_new)" attrs n Section_new inc n ky vl pp l p1 mf cf bp, OF inh' attrs n']
  obtain l' p' where 2: "\<forall>rest.
           load_loop inc \<lparr>section = n, inheritance = [], attribute = [], key = ky, value = vl, preprocessor_pair = pp, section_ptr = Some n, parse_action = SECTION, line = l, character_pos = p1, ignore_current_spaces = True\<rparr> \<lparr>section_data = sd(n \<mapsto> Section_new), msg_functor = mf, current_file = cf, base_path = bp\<rparr>
             ((if inh \<noteq> [] then '' : '' @ write_names True inh else [])
              @ (if attrs \<noteq> [] then '' = '' @ write_names True attrs else []) @ nl @ rest) =
           load_loop inc \<lparr>section = n, inheritance = [], attribute = [], key = ky, value = vl, preprocessor_pair = pp, section_ptr = Some n, parse_action = NEW_LINE, line = l', character_pos = p', ignore_current_spaces = True\<rparr>
             \<lparr>section_data = sd(n \<mapsto> \<lparr>inheritances = inh, attributes = attrs, values = Map.empty\<rparr>), msg_functor = mf, current_file = cf, base_path = bp\<rparr> rest"
    unfolding fun_upd_upd by (simp add: Section_new_def) blast
  show ?thesis
  proof (rule exI [of _ l'], rule exI [of _ p'], rule allI)
    fix rest
    have "load_loop inc \<lparr>section = sn, inheritance = [], attribute = [], key = ky, value = vl, preprocessor_pair = pp, section_ptr = sp, parse_action = NEW_LINE, line = l, character_pos = p, ignore_current_spaces = ig\<rparr> \<lparr>section_data = sd, msg_functor = mf, current_file = cf, base_path = bp\<rparr> (header_text n inh attrs @ rest) =
          load_loop inc \<lparr>section = sn, inheritance = [], attribute = [], key = ky, value = vl, preprocessor_pair = pp, section_ptr = sp, parse_action = NEW_LINE, line = l, character_pos = p, ignore_current_spaces = ig\<rparr> \<lparr>section_data = sd, msg_functor = mf, current_file = cf, base_path = bp\<rparr> (''['' @ n @ '']'' @
             ((if inh \<noteq> [] then '' : '' @ write_names True inh else [])
              @ (if attrs \<noteq> [] then '' = '' @ write_names True attrs else []) @ nl @ rest))"
      by (simp add: header_text_def)
    also have "\<dots> = load_loop inc \<lparr>section = n, inheritance = [], attribute = [], key = ky, value = vl, preprocessor_pair = pp, section_ptr = Some n, parse_action = SECTION, line = l, character_pos = p1, ignore_current_spaces = True\<rparr> \<lparr>section_data = sd(n \<mapsto> Section_new), msg_functor = mf, current_file = cf, base_path = bp\<rparr>
             ((if inh \<noteq> [] then '' : '' @ write_names True inh else [])
              @ (if attrs \<noteq> [] then '' = '' @ write_names True attrs else []) @ nl @ rest)"
      using 1 by blast
    also have "\<dots> = load_loop inc \<lparr>section = n, inheritance = [], attribute = [], key = ky, value = vl, preprocessor_pair = pp, section_ptr = Some n, parse_action = NEW_LINE, line = l', character_pos = p', ignore_current_spaces = True\<rparr>
             \<lparr>section_data = sd(n \<mapsto> \<lparr>inheritances = inh, attributes = attrs, values = Map.empty\<rparr>), msg_functor = mf, current_file = cf, base_path = bp\<rparr> rest"
      using 2 by blast
    finally show "load_loop inc \<lparr>section = sn, inheritance = [], attribute = [], key = ky, value = vl, preprocessor_pair = pp, section_ptr = sp, parse_action = NEW_LINE, line = l, character_pos = p, ignore_current_spaces = ig\<rparr> \<lparr>section_data = sd, msg_functor = mf, current_file = cf, base_path = bp\<rparr> (header_text n inh attrs @ rest) =
           load_loop inc \<lparr>section = n, inheritance = [], attribute = [], key = ky, value = vl, preprocessor_pair = pp, section_ptr = Some n, parse_action = NEW_LINE, line = l', character_pos = p', ignore_current_spaces = True\<rparr>
             \<lparr>section_data = sd(n \<mapsto> \<lparr>inheritances = inh, attributes = attrs, values = Map.empty\<rparr>), msg_functor = mf, current_file = cf, base_path = bp\<rparr> rest" .
  qed
qed

lemma save_section_text:
  assumes "section_data P n = Some sec" and "set (vo n) = dom (values sec)"
  shows "save_section vo P n =
         header_text n (inheritances sec) (attributes sec)
         @ concat (map (\<lambda>k. k @ '' = '' @ the (values sec k) @ nl) (vo n)) @ nl"
proof -
  have eq: "map (\<lambda>k. case values sec k of None \<Rightarrow> [] | Some v \<Rightarrow> k @ '' = '' @ v @ nl) (vo n)
        = map (\<lambda>k. k @ '' = '' @ the (values sec k) @ nl) (vo n)"
    using assms(2) by (intro map_cong) auto
  show ?thesis
    by (simp only: save_section_def assms(1) option.case eq)
qed

lemma one_section:
  assumes sec: "section_data P n = Some sec" and fresh: "sd n = None"
    and name: "list_all plain n" and can: "canonical_section sec"
    and enum: "enumerates (vo n) (values sec)"
    and bases: "list_all (\<lambda>b. sd b \<noteq> None \<or> b = n) (inheritances sec)"
  shows "\<exists>l' p'. \<forall>rest.
           load_loop inc \<lparr>section = sn, inheritance = [], attribute = [], key = [], value = [], preprocessor_pair = pp, section_ptr = sp, parse_action = NEW_LINE, line = l, character_pos = p, ignore_current_spaces = True\<rparr> \<lparr>section_data = sd, msg_functor = mf, current_file = cf, base_path = bp\<rparr> (save_section vo P n @ rest) =
           load_loop inc \<lparr>section = n, inheritance = [], attribute = [], key = [], value = [], preprocessor_pair = pp, section_ptr = Some n, parse_action = NEW_LINE, line = l', character_pos = p', ignore_current_spaces = True\<rparr>
             \<lparr>section_data = sd(n \<mapsto> sec), msg_functor = mf, current_file = cf, base_path = bp\<rparr> rest"
proof -
  define s0 where "s0 = \<lparr>inheritances = inheritances sec, attributes = attributes sec, values = Map.empty\<rparr>"
  define f where "f = (\<lambda>k. the (values sec k))"
  have inh: "\<forall>b \<in> set (inheritances sec). b \<noteq> [] \<and> list_all plain b \<and> (sd b \<noteq> None \<or> b = n)"
    using can bases by (simp add: canonical_section_def name_ok_def list_all_iff)
  have attrs: "\<forall>b \<in> set (attributes sec). b \<noteq> [] \<and> list_all plain b"
    using can by (simp add: canonical_section_def name_ok_def list_all_iff)
  from header_line [of n sd "inheritances sec" "attributes sec" inc sn "[]" "[]" pp sp l p True mf cf bp, OF name fresh inh attrs]
  obtain l1 p1 where 1: "\<forall>rest.
           load_loop inc \<lparr>section = sn, inheritance = [], attribute = [], key = [], value = [], preprocessor_pair = pp, section_ptr = sp, parse_action = NEW_LINE, line = l, character_pos = p, ignore_current_spaces = True\<rparr> \<lparr>section_data = sd, msg_functor = mf, current_file = cf, base_path = bp\<rparr>
             (header_text n (inheritances sec) (attributes sec) @ rest) =
           load_loop inc \<lparr>section = n, inheritance = [], attribute = [], key = [], value = [], preprocessor_pair = pp, section_ptr = Some n, parse_action = NEW_LINE, line = l1, character_pos = p1, ignore_current_spaces = True\<rparr>
             \<lparr>section_data = sd(n \<mapsto> s0), msg_functor = mf, current_file = cf, base_path = bp\<rparr> rest"
    unfolding s0_def by blast
  have keys: "\<forall>k \<in> set (vo n). k \<noteq> [] \<and> list_all plain k \<and> list_all plain (f k) \<and> values s0 k = None"
    using can enum by (auto simp: canonical_section_def name_ok_def enumerates_def f_def s0_def)
  have d: "distinct (vo n)"
    using enum by (simp add: enumerates_def)
  have n0: "(sd(n \<mapsto> s0)) n = Some s0"
    by simp
  from key_value_lines [of "vo n" f s0 "sd(n \<mapsto> s0)" n inc n "[]" "[]" pp l1 p1 mf cf bp, OF d keys n0]
  obtain l2 p2 where 2: "\<forall>rest.
           load_loop inc \<lparr>section = n, inheritance = [], attribute = [], key = [], value = [], preprocessor_pair = pp, section_ptr = Some n, parse_action = NEW_LINE, line = l1, character_pos = p1, ignore_current_spaces = True\<rparr> \<lparr>section_data = sd(n \<mapsto> s0), msg_functor = mf, current_file = cf, base_path = bp\<rparr>
             (concat (map (\<lambda>k. k @ '' = '' @ f k @ nl) (vo n)) @ rest) =
           load_loop inc \<lparr>section = n, inheritance = [], attribute = [], key = [], value = [], preprocessor_pair = pp, section_ptr = Some n, parse_action = NEW_LINE, line = l2, character_pos = p2, ignore_current_spaces = True\<rparr>
             \<lparr>section_data = sd(n \<mapsto> s0\<lparr>values := (\<lambda>k. if k \<in> set (vo n) then Some (f k) else values s0 k)\<rparr>), msg_functor = mf, current_file = cf, base_path = bp\<rparr> rest"
    unfolding fun_upd_upd by blast
  have v: "(\<lambda>k. if k \<in> set (vo n) then Some (f k) else values s0 k) = values sec"
    using enum by (auto simp: fun_eq_iff enumerates_def f_def s0_def)
  have e: "s0\<lparr>values := (\<lambda>k. if k \<in> set (vo n) then Some (f k) else values s0 k)\<rparr> = sec"
    unfolding v by (simp add: s0_def)
  show ?thesis
  proof (rule exI [of _ "l2 + 1"], rule exI [of _ 1], rule allI)
    fix rest
    have "load_loop inc \<lparr>section = sn, inheritance = [], attribute = [], key = [], value = [], preprocessor_pair = pp, section_ptr = sp, parse_action = NEW_LINE, line = l, character_pos = p, ignore_current_spaces = True\<rparr> \<lparr>section_data = sd, msg_functor = mf, current_file = cf, base_path = bp\<rparr> (save_section vo P n @ rest) =
          load_loop inc \<lparr>section = sn, inheritance = [], attribute = [], key = [], value = [], preprocessor_pair = pp, section_ptr = sp, parse_action = NEW_LINE, line = l, character_pos = p, ignore_current_spaces = True\<rparr> \<lparr>section_data = sd, msg_functor = mf, current_file = cf, base_path = bp\<rparr>
             (header_text n (inheritances sec) (attributes sec)
              @ concat (map (\<lambda>k. k @ '' = '' @ f k @ nl) (vo n)) @ nl @ rest)"
      using save_section_text [OF sec, of vo] enum by (simp add: enumerates_def f_def)
    also have "\<dots> = load_loop inc \<lparr>section = n, inheritance = [], attribute = [], key = [], value = [], preprocessor_pair = pp, section_ptr = Some n, parse_action = NEW_LINE, line = l1, character_pos = p1, ignore_current_spaces = True\<rparr>
             \<lparr>section_data = sd(n \<mapsto> s0), msg_functor = mf, current_file = cf, base_path = bp\<rparr> (concat (map (\<lambda>k. k @ '' = '' @ f k @ nl) (vo n)) @ nl @ rest)"
      using 1 by blast
    also have "\<dots> = load_loop inc \<lparr>section = n, inheritance = [], attribute = [], key = [], value = [], preprocessor_pair = pp, section_ptr = Some n, parse_action = NEW_LINE, line = l2, character_pos = p2, ignore_current_spaces = True\<rparr>
             \<lparr>section_data = sd(n \<mapsto> sec), msg_functor = mf, current_file = cf, base_path = bp\<rparr> (nl @ rest)"
      using 2 unfolding e by blast
    also have "\<dots> = load_loop inc \<lparr>section = n, inheritance = [], attribute = [], key = [], value = [], preprocessor_pair = pp, section_ptr = Some n, parse_action = NEW_LINE, line = l2 + 1, character_pos = 1, ignore_current_spaces = True\<rparr>
             \<lparr>section_data = sd(n \<mapsto> sec), msg_functor = mf, current_file = cf, base_path = bp\<rparr> rest"
      by (rule blank_line)
    finally show "load_loop inc \<lparr>section = sn, inheritance = [], attribute = [], key = [], value = [], preprocessor_pair = pp, section_ptr = sp, parse_action = NEW_LINE, line = l, character_pos = p, ignore_current_spaces = True\<rparr> \<lparr>section_data = sd, msg_functor = mf, current_file = cf, base_path = bp\<rparr> (save_section vo P n @ rest) =
           load_loop inc \<lparr>section = n, inheritance = [], attribute = [], key = [], value = [], preprocessor_pair = pp, section_ptr = Some n, parse_action = NEW_LINE, line = l2 + 1, character_pos = 1, ignore_current_spaces = True\<rparr>
             \<lparr>section_data = sd(n \<mapsto> sec), msg_functor = mf, current_file = cf, base_path = bp\<rparr> rest" .
  qed
qed

lemma bases_known:
  assumes "list_all (\<lambda>b. b \<in> set (n # seen)) bs" and "\<forall>b \<in> set seen. sd b \<noteq> None"
  shows "list_all (\<lambda>b. sd b \<noteq> None \<or> b = n) bs"
  using assms by (auto simp: list_all_iff)

lemma add_section:
  assumes "n \<notin> set ns" and "m n = Some sec"
  shows "sd(n \<mapsto> sec) ++ (m |` set ns) = sd ++ (m |` set (n # ns))"
  using assms by (auto simp: fun_eq_iff map_add_def restrict_map_def split: option.splits)

lemma all_sections:
  assumes "canonical P"
    and "\<forall>name sec. section_data P name = Some sec \<longrightarrow> enumerates (vo name) (values sec)"
    and "distinct ns"
    and "\<forall>n \<in> set ns. section_data P n \<noteq> None \<and> sd n = None"
    and "bases_first seen ns P"
    and "\<forall>b \<in> set seen. sd b \<noteq> None"
  shows "\<exists>sn' sp' l' p'. \<forall>rest.
           load_loop inc \<lparr>section = sn, inheritance = [], attribute = [], key = [], value = [], preprocessor_pair = pp, section_ptr = sp, parse_action = NEW_LINE, line = l, character_pos = p, ignore_current_spaces = True\<rparr> \<lparr>section_data = sd, msg_functor = mf, current_file = cf, base_path = bp\<rparr>
             (concat (map (save_section vo P) ns) @ rest) =
           load_loop inc \<lparr>section = sn', inheritance = [], attribute = [], key = [], value = [], preprocessor_pair = pp, section_ptr = sp', parse_action = NEW_LINE, line = l', character_pos = p', ignore_current_spaces = True\<rparr>
             \<lparr>section_data = sd ++ (section_data P |` set ns), msg_functor = mf, current_file = cf, base_path = bp\<rparr> rest"
  using assms(3-)
proof (induction ns arbitrary: sd seen sn sp l p)
  case Nil
  show ?case
    by (rule exI [of _ sn], rule exI [of _ sp], rule exI [of _ l], rule exI [of _ p]) simp
next
  case (Cons n ns)
  from Cons.prems obtain sec where sec: "section_data P n = Some sec"
    by auto
  have fresh: "sd n = None" and notin: "n \<notin> set ns"
    using Cons.prems by auto
  have name: "list_all plain n" and can: "canonical_section sec"
    using assms(1) sec by (auto simp: canonical_def)
  have enum: "enumerates (vo n) (values sec)"
    using assms(2) sec by blast
  have bases: "list_all (\<lambda>b. sd b \<noteq> None \<or> b = n) (inheritances sec)"
    using Cons.prems(3,4) sec by (intro bases_known [of n seen]) simp_all
  from one_section [of P n sec sd vo inc sn pp sp l p mf cf bp, OF sec fresh name can enum bases]
  obtain l1 p1 where 1: "\<forall>rest.
           load_loop inc \<lparr>section = sn, inheritance = [], attribute = [], key = [], value = [], preprocessor_pair = pp, section_ptr = sp, parse_action = NEW_LINE, line = l, character_pos = p, ignore_current_spaces = True\<rparr> \<lparr>section_data = sd, msg_functor = mf, current_file = cf, base_path = bp\<rparr> (save_section vo P n @ rest) =
           load_loop inc \<lparr>section = n, inheritance = [], attribute = [], key = [], value = [], preprocessor_pair = pp, section_ptr = Some n, parse_action = NEW_LINE, line = l1, character_pos = p1, ignore_current_spaces = True\<rparr>
             \<lparr>section_data = sd(n \<mapsto> sec), msg_functor = mf, current_file = cf, base_path = bp\<rparr> rest"
    by blast
  have pre: "distinct ns" "\<forall>n' \<in> set ns. section_data P n' \<noteq> None \<and> (sd(n \<mapsto> sec)) n' = None"
    "bases_first (n # seen) ns P" "\<forall>b \<in> set (n # seen). (sd(n \<mapsto> sec)) b \<noteq> None"
    using Cons.prems by auto
  from Cons.IH [of "sd(n \<mapsto> sec)" "n # seen" n "Some n" l1 p1, OF pre]
  obtain sn' sp' l' p' where 2: "\<forall>rest.
           load_loop inc \<lparr>section = n, inheritance = [], attribute = [], key = [], value = [], preprocessor_pair = pp, section_ptr = Some n, parse_action = NEW_LINE, line = l1, character_pos = p1, ignore_current_spaces = True\<rparr> \<lparr>section_data = sd(n \<mapsto> sec), msg_functor = mf, current_file = cf, base_path = bp\<rparr>
             (concat (map (save_section vo P) ns) @ rest) =
           load_loop inc \<lparr>section = sn', inheritance = [], attribute = [], key = [], value = [], preprocessor_pair = pp, section_ptr = sp', parse_action = NEW_LINE, line = l', character_pos = p', ignore_current_spaces = True\<rparr>
             \<lparr>section_data = sd(n \<mapsto> sec) ++ (section_data P |` set ns), msg_functor = mf, current_file = cf, base_path = bp\<rparr> rest"
    by blast
  note e = add_section [of n ns "section_data P" sec sd, OF notin sec]
  show ?case
  proof (rule exI [of _ sn'], rule exI [of _ sp'], rule exI [of _ l'], rule exI [of _ p'], rule allI)
    fix rest
    have "load_loop inc \<lparr>section = sn, inheritance = [], attribute = [], key = [], value = [], preprocessor_pair = pp, section_ptr = sp, parse_action = NEW_LINE, line = l, character_pos = p, ignore_current_spaces = True\<rparr> \<lparr>section_data = sd, msg_functor = mf, current_file = cf, base_path = bp\<rparr>
             (concat (map (save_section vo P) (n # ns)) @ rest) =
          load_loop inc \<lparr>section = sn, inheritance = [], attribute = [], key = [], value = [], preprocessor_pair = pp, section_ptr = sp, parse_action = NEW_LINE, line = l, character_pos = p, ignore_current_spaces = True\<rparr> \<lparr>section_data = sd, msg_functor = mf, current_file = cf, base_path = bp\<rparr>
             (save_section vo P n @ concat (map (save_section vo P) ns) @ rest)"
      by simp
    also have "\<dots> = load_loop inc \<lparr>section = n, inheritance = [], attribute = [], key = [], value = [], preprocessor_pair = pp, section_ptr = Some n, parse_action = NEW_LINE, line = l1, character_pos = p1, ignore_current_spaces = True\<rparr> \<lparr>section_data = sd(n \<mapsto> sec), msg_functor = mf, current_file = cf, base_path = bp\<rparr>
             (concat (map (save_section vo P) ns) @ rest)"
      using 1 by blast
    also have "\<dots> = load_loop inc \<lparr>section = sn', inheritance = [], attribute = [], key = [], value = [], preprocessor_pair = pp, section_ptr = sp', parse_action = NEW_LINE, line = l', character_pos = p', ignore_current_spaces = True\<rparr>
             \<lparr>section_data = sd ++ (section_data P |` set (n # ns)), msg_functor = mf, current_file = cf, base_path = bp\<rparr> rest"
      using 2 unfolding e by blast
    finally show "load_loop inc \<lparr>section = sn, inheritance = [], attribute = [], key = [], value = [], preprocessor_pair = pp, section_ptr = sp, parse_action = NEW_LINE, line = l, character_pos = p, ignore_current_spaces = True\<rparr> \<lparr>section_data = sd, msg_functor = mf, current_file = cf, base_path = bp\<rparr>
             (concat (map (save_section vo P) (n # ns)) @ rest) =
           load_loop inc \<lparr>section = sn', inheritance = [], attribute = [], key = [], value = [], preprocessor_pair = pp, section_ptr = sp', parse_action = NEW_LINE, line = l', character_pos = p', ignore_current_spaces = True\<rparr>
             \<lparr>section_data = sd ++ (section_data P |` set (n # ns)), msg_functor = mf, current_file = cf, base_path = bp\<rparr> rest" .
  qed
qed

lemma eof_at_line_start:
  "parse_action ls = NEW_LINE \<Longrightarrow> map_option snd (switch_character inc eof_character ls P) = Some P"
  by (simp add: switch_character_def eof_character_def case_default_def)

lemma load_file_saved:
  assumes "canonical P"
    and "enumerates section_order (section_data P)"
    and "\<forall>name sec. section_data P name = Some sec \<longrightarrow> enumerates (value_order name) (values sec)"
    and "bases_first [] section_order P"
    and "section_data P0 = Map.empty"
  shows "load_file inc (save section_order value_order file_path P fs) file_path P0 =
         Some (P0\<lparr>section_data := section_data P, current_file := file_path\<rparr>)"
proof -
  obtain mf cf bp where P0: "P0 = \<lparr>section_data = Map.empty, msg_functor = mf, current_file = cf, base_path = bp\<rparr>"
    using assms(5) by (cases P0) simp
  have d: "distinct section_order"
    and pre: "\<forall>n \<in> set section_order. section_data P n \<noteq> None \<and> Map.empty n = (None :: Section option)"
    using assms(2) by (auto simp: enumerates_def)
  have seen: "\<forall>b \<in> set []. Map.empty b \<noteq> (None :: Section option)"
    by simp
  from all_sections [of P value_order section_order Map.empty "[]" inc "[]" "([], [])" None 1 0 mf file_path bp,
      OF assms(1) assms(3) d pre assms(4) seen]
  obtain sn' sp' l' p' where run: "\<forall>rest.
           load_loop inc \<lparr>section = [], inheritance = [], attribute = [], key = [], value = [], preprocessor_pair = ([], []), section_ptr = None, parse_action = NEW_LINE, line = 1, character_pos = 0, ignore_current_spaces = True\<rparr>
             \<lparr>section_data = Map.empty, msg_functor = mf, current_file = file_path, base_path = bp\<rparr>
             (concat (map (save_section value_order P) section_order) @ rest) =
           load_loop inc \<lparr>section = sn', inheritance = [], attribute = [], key = [], value = [], preprocessor_pair = ([], []), section_ptr = sp', parse_action = NEW_LINE, line = l', character_pos = p', ignore_current_spaces = True\<rparr>
             \<lparr>section_data = Map.empty ++ (section_data P |` set section_order), msg_functor = mf, current_file = file_path, base_path = bp\<rparr> rest"
    by blast
  have m: "Map.empty ++ (section_data P |` set section_order) = section_data P"
    using assms(2) by (auto simp: fun_eq_iff enumerates_def restrict_map_def)
  have "load_loop inc locals_init (P0\<lparr>current_file := file_path\<rparr>) (save_text section_order value_order P) =
        Some (\<lparr>section = sn', inheritance = [], attribute = [], key = [], value = [], preprocessor_pair = ([], []), section_ptr = sp', parse_action = NEW_LINE, line = l', character_pos = p', ignore_current_spaces = True\<rparr>,
              \<lparr>section_data = section_data P, msg_functor = mf, current_file = file_path, base_path = bp\<rparr>, False)"
    using run [rule_format, of "[]"] unfolding m by (simp add: locals_init_def P0 save_text_def)
  then show ?thesis
    by (simp add: load_file_def save_def P0 eof_at_line_start)
qed

lemma load_saved:
  assumes "canonical P"
    and "enumerates section_order (section_data P)"
    and "\<forall>name sec. section_data P name = Some sec \<longrightarrow> enumerates (value_order name) (values sec)"
    and "bases_first [] section_order P"
    and "section_data P0 = Map.empty"
  shows "load depth (save section_order value_order file_path P fs) file_path P0 =
         Some (P0\<lparr>section_data := section_data P, current_file := file_path\<rparr>)"
  by (cases depth) (simp_all only: load.simps load_file_saved [OF assms])

section \<open>The claims\<close>

subsection \<open>C1: lookup priority\<close>

text \<open>
  C1 says that \<open>getString\<close> returns the default for an unknown section, else the section's own
  binding of the key, else the binding in the first base of the inheritance list that exists
  and binds the key (bases of bases are not consulted), else the default.

  The code loses a binding found in a base when it is the empty string:
  \<open>getValueFromInheritance\<close> returns the empty member \<^verbatim>\<open>_dummy_str\<close> for "not found", and
  \<open>getString\<close> takes every empty result for "not found". The file \<open>empty_value_input\<close> loads
  to a model in which \<open>b\<close> inherits from \<open>a\<close> and \<open>a\<close> binds \<open>x\<close> to the empty string: asked
  for \<open>x\<close> in \<open>b\<close> the code returns the default, asked in \<open>a\<close> it returns the empty string.
  In the second file the bases of \<open>b\<close> are \<open>e\<close> and \<open>a\<close>, the first binds \<open>x\<close> to the empty string,
  the second to \<open>1\<close>: the code returns the default, which is the value of neither base.
\<close>

theorem C1_inherited_empty_value_lost:
  "load 0 [''f'' \<mapsto> empty_value_input] ''f'' CFGParser_new = Some empty_value_model
   \<and> getString_claimed empty_value_model ''b'' ''x'' ''d'' = []
   \<and> getString empty_value_model ''b'' ''x'' ''d'' = ''d''
   \<and> getString empty_value_model ''a'' ''x'' ''d'' = []
   \<and> load 0 [''f'' \<mapsto> empty_first_base_input] ''f'' CFGParser_new = Some empty_first_base_model
   \<and> getString_claimed empty_first_base_model ''b'' ''x'' ''d'' = []
   \<and> getString empty_first_base_model ''b'' ''x'' ''d'' = ''d''
   \<and> getString empty_first_base_model ''e'' ''x'' ''d'' = []
   \<and> getString empty_first_base_model ''a'' ''x'' ''d'' = ''1''"
proof -
  have 1: "load 0 [''f'' \<mapsto> empty_value_input] ''f'' CFGParser_new = Some empty_value_model"
    by (simp add: empty_value_input_def empty_value_model_def load_eval)
  have 2: "getString_claimed empty_value_model ''b'' ''x'' ''d'' = []"
    by (simp add: getString_claimed_def empty_value_model_def first_base_binding_def binds_key_def)
  have 3: "getString empty_value_model ''b'' ''x'' ''d'' = ''d''"
    "getString empty_value_model ''a'' ''x'' ''d'' = []"
    by (simp_all add: getString_def getValueFromInheritance_def empty_value_model_def)
  have 4: "load 0 [''f'' \<mapsto> empty_first_base_input] ''f'' CFGParser_new = Some empty_first_base_model"
    by (simp add: empty_first_base_input_def empty_first_base_model_def load_eval)
  have 5: "getString_claimed empty_first_base_model ''b'' ''x'' ''d'' = []"
    by (simp add: getString_claimed_def empty_first_base_model_def first_base_binding_def binds_key_def)
  have 6: "getString empty_first_base_model ''b'' ''x'' ''d'' = ''d''"
    "getString empty_first_base_model ''e'' ''x'' ''d'' = []"
    "getString empty_first_base_model ''a'' ''x'' ''d'' = ''1''"
    by (simp_all add: getString_def getValueFromInheritance_def empty_first_base_model_def)
  show ?thesis
    using 1 2 3 4 5 6 by simp
qed

subsection \<open>C2: a key assigned twice\<close>

text \<open>
  C2 says that a second assignment to a key of a section is reported and does not replace
  the first value. The code reports it when it reads \<open>=\<close>, and then overwrites the value at the
  end of the line: after loading \<open>twice_input\<close> the key \<open>x\<close> of section \<open>a\<close> is bound to \<open>2\<close>,
  and the functor has received the one message about the key.
\<close>

theorem C2_later_assignment_replaces:
  "load 0 [''f'' \<mapsto> twice_input] ''f'' CFGParser_new = Some twice_model
   \<and> getString twice_model ''a'' ''x'' [] = ''2''"
proof -
  have "load 0 [''f'' \<mapsto> twice_input] ''f'' CFGParser_new = Some twice_model"
    by (simp add: twice_input_def twice_model_def load_eval)
  moreover have "getString twice_model ''a'' ''x'' [] = ''2''"
    by (simp add: getString_def twice_model_def)
  ultimately show ?thesis by simp
qed

subsection \<open>C8: arrays\<close>

text \<open>
  C8: when key \<open>K\<close> of section \<open>S\<close> is bound to a non-empty raw string, \<open>getArray\<close> coerces the
  segments between the commas of the raw string, in order, the last one included. The
  segments are exactly the pieces of the raw string: joined with commas they give it back
  (so nothing is trimmed), and none contains a comma. A segment that cannot be coerced makes
  the whole call fail.
\<close>

theorem C8_getArray_splits:
  assumes "section_data P S = Some sec" and "values sec K = Some raw" and "raw \<noteq> []"
  shows "getArray mk P S K = coerce_all mk (segments raw)
         \<and> join_commas (segments raw) = raw
         \<and> (\<forall>s \<in> set (segments raw). CHR '','' \<notin> set s)"
proof -
  obtain s ss where seg: "segments raw = s # ss"
    using segments_not_Nil [of raw] by (cases "segments raw") auto
  have "getString P S K [] = raw"
    using assms by (simp add: getString_def)
  then have "getArray mk P S K = coerce_all mk (segments raw)"
    using assms(3) seg by (simp add: getArray_def getArray_loop_segments split: sum.splits)
  then show ?thesis
    using join_segments segments_no_comma by blast
qed

text \<open>Scenario S4: the file \<open>[t]\<close>, \<open>arr = 1,2,3\<close> gives the array \<open>[1, 2, 3]\<close>.\<close>

theorem C8_getArray_splits_witness:
  "load 0 [''f'' \<mapsto> array_input] ''f'' CFGParser_new = Some array_model
   \<and> getArray makeValueFromString_int array_model ''t'' ''arr'' = Inr [1, 2, 3]"
proof -
  have "load 0 [''f'' \<mapsto> array_input] ''f'' CFGParser_new = Some array_model"
    by (simp add: array_input_def array_model_def load_eval)
  moreover have "getArray makeValueFromString_int array_model ''t'' ''arr'' = Inr [1, 2, 3]"
    using C8_getArray_splits [of array_model "''t''"
        "\<lparr>inheritances = [], attributes = [], values = [''arr'' \<mapsto> ''1,2,3'']\<rparr>" "''arr''" "''1,2,3''"
        makeValueFromString_int]
    by (simp add: array_model_def makeValueFromString_int_def stoi_digits)
  ultimately show ?thesis by simp
qed

subsection \<open>C9: a key bound to the empty string\<close>

text \<open>
  C9: when key \<open>K\<close> of section \<open>S\<close> is bound to the empty string, \<open>get\<close> returns the default
  whatever the conversion is (it is not called), \<open>getArray\<close> returns the empty array, and
  \<open>hasKey\<close> still answers true.
\<close>

theorem C9_empty_value_as_absent:
  assumes "section_data P S = Some sec" and "values sec K = Some []"
  shows "get mk P S K d = Inr d \<and> getArray mk P S K = Inr [] \<and> fst (hasKey P S K)"
  using assms by (simp add: get_def getArray_def getString_def hasKey_def)

text \<open>
  In the model loaded from \<open>empty_value_input\<close>, \<open>x\<close> is a key of \<open>a\<close> with an empty value;
  \<open>std::stoi\<close> would have thrown on it.
\<close>

theorem C9_empty_value_as_absent_witness:
  "makeValueFromString_int [] = Inl invalid_argument
   \<and> get makeValueFromString_int empty_value_model ''a'' ''x'' 7 = Inr 7
   \<and> getArray makeValueFromString_int empty_value_model ''a'' ''x'' = Inr []
   \<and> fst (hasKey empty_value_model ''a'' ''x'')"
  using C9_empty_value_as_absent [of empty_value_model "''a''"
      "\<lparr>inheritances = [], attributes = [], values = [''x'' \<mapsto> []]\<rparr>" "''x''" makeValueFromString_int 7]
  by (simp add: empty_value_model_def makeValueFromString_int_def stoi_def)

subsection \<open>C6: spaces and the ignore-spaces flag\<close>

text \<open>
  C6 says that a space or tab in the states SECTION, INHERITANCE, ATTRIBUTE, KEY and VALUE is
  tolerated exactly when the flag is set, that the flag is set at the start of each line and
  after \<open>]\<close>, that it is cleared once an identifier character has been consumed on the line,
  and that a space while the flag is clear gives the state ERROR and a diagnostic.

  The code never clears the flag on an identifier character: it clears it in one place only,
  when \<open>[\<close> opens a header. So a space inside a key is tolerated: the file \<open>[a]\<close>, \<open>k v = 1\<close>
  loads without a diagnostic and binds the key \<open>kv\<close>; and reading \<open>k\<close> at the start of a line
  leaves the flag set.
\<close>

theorem C6_counterexample:
  "load 0 [''f'' \<mapsto> space_key_input] ''f'' CFGParser_new = Some space_key_model
   \<and> msg_functor space_key_model = Some []
   \<and> getString space_key_model ''a'' ''kv'' [] = ''1''
   \<and> switch_character (\<lambda>path P. None) (CHR ''k'') locals_init CFGParser_new =
       Some (locals_init\<lparr>parse_action := KEY, key := ''k''\<rparr>, CFGParser_new)
   \<and> ignore_current_spaces (locals_init\<lparr>parse_action := KEY, key := ''k''\<rparr>)"
proof -
  have "load 0 [''f'' \<mapsto> space_key_input] ''f'' CFGParser_new = Some space_key_model"
    by (simp add: space_key_input_def space_key_model_def load_eval)
  moreover have "getString space_key_model ''a'' ''kv'' [] = ''1''"
    by (simp add: getString_def space_key_model_def)
  moreover have "switch_character (\<lambda>path P. None) (CHR ''k'') locals_init CFGParser_new =
       Some (locals_init\<lparr>parse_action := KEY, key := ''k''\<rparr>, CFGParser_new)"
    by (simp add: switch_character_def case_default_def locals_init_def)
  ultimately show ?thesis
    by (simp add: space_key_model_def locals_init_def)
qed

text \<open>
  C6 as amended. In the five states a space or tab changes nothing when the flag is set, and
  gives the state ERROR and the diagnostic "Space in wrong place" when it is clear. The flag
  is set in the initial locals; after any character of the switch it is: set after a newline;
  after \<open>[\<close>, clear if the state was NEW_LINE and unchanged otherwise; after \<open>]\<close>, set if the
  state was SECTION and unchanged otherwise; unchanged after every other character. The
  escape branch and the increment of the position leave it unchanged too.
\<close>

theorem C6_space_flag_amended:
  "((c = CHR '' '' \<or> c = CHR 0x09) \<and> parse_action ls \<in> {SECTION, INHERITANCE, ATTRIBUTE, KEY, VALUE} \<longrightarrow>
      switch_character inc c ls P =
        Some (if ignore_current_spaces ls then (ls, P)
              else (ls\<lparr>parse_action := ERROR\<rparr>, msg ls ''Space in wrong place'' P)))
   \<and> ignore_current_spaces locals_init
   \<and> (switch_character inc c ls P = Some (ls', P') \<longrightarrow>
        ignore_current_spaces ls' =
          (if c = CHR 0x0A then True
           else if c = CHR ''['' then ignore_current_spaces ls \<and> parse_action ls \<noteq> NEW_LINE
           else if c = CHR '']'' then ignore_current_spaces ls \<or> parse_action ls = SECTION
           else ignore_current_spaces ls))
   \<and> ignore_current_spaces (fst (escape d ls P)) = ignore_current_spaces ls
   \<and> ignore_current_spaces (next_pos ls) = ignore_current_spaces ls"
  using space_in_word_states [of c ls inc P] flag_switch [of inc c ls P ls' P']
  by (simp add: locals_init_def next_pos_def)

text \<open>A space in the middle of a key while the flag is clear.\<close>

theorem C6_space_flag_amended_witness:
  "switch_character (\<lambda>path P. None) (CHR '' '') in_key_flag_off CFGParser_new =
     Some (in_key_flag_off\<lparr>parse_action := ERROR\<rparr>, msg in_key_flag_off ''Space in wrong place'' CFGParser_new)
   \<and> \<not> ignore_current_spaces (in_key_flag_off\<lparr>parse_action := ERROR\<rparr>)"
  using C6_space_flag_amended [of "CHR '' ''" in_key_flag_off "\<lambda>path P. None" CFGParser_new
      "in_key_flag_off\<lparr>parse_action := ERROR\<rparr>" "msg in_key_flag_off ''Space in wrong place'' CFGParser_new"]
  by (simp add: in_key_flag_off_def locals_init_def)

subsection \<open>C7: a file that cannot be opened\<close>

text \<open>
  C7 says that \<open>load\<close> of a path that cannot be opened reports the failure and leaves the
  section map and the current file path unchanged. The code assigns the path to
  \<^verbatim>\<open>_current_file\<close> before it opens the file and does not put the old value back: a parser
  that has loaded \<open>a.cfg\<close> has the current file \<open>missing.cfg\<close> after a failed load of it.
\<close>

theorem C7_counterexample:
  "load 0 [''a.cfg'' \<mapsto> ''[a]'' @ nl @ ''x=1'' @ nl] ''a.cfg'' CFGParser_new = Some loaded_a_cfg
   \<and> load 0 [''a.cfg'' \<mapsto> ''[a]'' @ nl @ ''x=1'' @ nl] ''missing.cfg'' loaded_a_cfg =
       Some (loaded_a_cfg\<lparr>current_file := ''missing.cfg'', msg_functor := Some [open_failure_msg ''missing.cfg'']\<rparr>)
   \<and> current_file loaded_a_cfg = ''a.cfg''"
  by (simp add: loaded_a_cfg_def open_failure_msg_def load_eval)

text \<open>
  C7 as amended: \<open>load\<close> of a path that cannot be opened returns, whatever the bound on
  includes; it reports the failure (one message, if a functor is registered), leaves the
  section map and the base path unchanged, and sets the current file to the path that
  failed. When the failing call is the one made for an include, the including call restores
  its own current file afterwards.
\<close>

theorem C7_open_failure_amended:
  assumes "fs file_path = None"
  shows "(\<exists>P'. load depth fs file_path P = Some P'
           \<and> section_data P' = section_data P
           \<and> base_path P' = base_path P
           \<and> current_file P' = file_path
           \<and> msg_functor P' = map_option (\<lambda>log. log @ [open_failure_msg file_path]) (msg_functor P))
         \<and> (file_path = base_path P @ path \<longrightarrow>
             (\<exists>P'. IncludeFile (load depth fs) path P = Some P'
               \<and> section_data P' = section_data P
               \<and> current_file P' = current_file P))"
  using assms by (auto simp add: load_open_failure call_msg_functor_def IncludeFile_def)

theorem C7_open_failure_amended_witness:
  "load 0 [''a.cfg'' \<mapsto> ''[a]'' @ nl @ ''x=1'' @ nl] ''missing.cfg'' loaded_a_cfg =
     Some (loaded_a_cfg\<lparr>current_file := ''missing.cfg'', msg_functor := Some [open_failure_msg ''missing.cfg'']\<rparr>)
   \<and> map_option current_file
       (IncludeFile (load 0 [''a.cfg'' \<mapsto> ''[a]'' @ nl @ ''x=1'' @ nl]) ''missing.cfg'' loaded_a_cfg) = Some ''a.cfg''"
  using C7_open_failure_amended [of "[''a.cfg'' \<mapsto> ''[a]'' @ nl @ ''x=1'' @ nl]" "''missing.cfg''" 0
      loaded_a_cfg "''missing.cfg''"]
  by (auto simp add: loaded_a_cfg_def)

subsection \<open>C5: a duplicate section header\<close>

text \<open>
  C5: when the parser, at the start of a line, reads a header whose name is already a
  section (the name in brackets, then spaces, an inheritance list after \<open>:\<close> and an attribute
  list after \<open>=\<close>, each optional), followed by any number of assignment lines, then the
  functor receives exactly one message (the one about the duplicate, with the line and column
  of the closing bracket), and nothing else of the parser changes: the section map is the
  same, so the first-seen section keeps its inheritances, attributes and values, and the
  assignment lines of the block have no effect. For the file of scenario S2,
  \<open>getString("a", "x", "")\<close> is \<open>1\<close> and one message was emitted.
\<close>

theorem C5_duplicate_section:
  assumes "parse_action ls = NEW_LINE" and "list_all plain name" and "section_data P name \<noteq> None"
    and "list_all blank pad" and "list_ok inh" and "list_ok attrs"
    and "\<forall>lr \<in> set lines. key_part (fst lr) \<and> value_part (snd lr)"
  shows "(\<exists>ls'. load_loop inc ls P
              (''['' @ name @ '']'' @ pad @ lists_text inh attrs @ nl @ concat (map assignment_line lines)) =
            Some (ls',
                  P\<lparr>msg_functor := map_option (\<lambda>log. log @
                       [GetErrorLineString (ls\<lparr>character_pos := character_pos ls + 1 + of_nat (length name)\<rparr>)
                        @ already_exist_msg name]) (msg_functor P)\<rparr>,
                  False)
            \<and> idle ls')
         \<and> load 0 [''f'' \<mapsto> duplicate_input] ''f'' CFGParser_new = Some duplicate_model
         \<and> getString duplicate_model ''a'' ''x'' [] = ''1''"
proof -
  define m where "m = GetErrorLineString (ls\<lparr>character_pos := character_pos ls + 1 + of_nat (length name)\<rparr>)
                        @ already_exist_msg name"
  define hdr where "hdr = ''['' @ name @ '']'' @ pad @ lists_text inh attrs @ nl"
  from duplicate_header_lists_idle [OF assms(1-6), of inc]
  obtain ls1 where "idle ls1"
    and 1: "\<forall>rest. load_loop inc ls P (hdr @ rest) = load_loop inc ls1 (call_msg_functor m P) rest"
    unfolding m_def hdr_def by auto
  from assignment_lines_idle [OF \<open>idle ls1\<close> assms(7), of inc "call_msg_functor m P"]
  obtain ls2 where "idle ls2"
    and 2: "\<forall>rest. load_loop inc ls1 (call_msg_functor m P) (concat (map assignment_line lines) @ rest)
               = load_loop inc ls2 (call_msg_functor m P) rest"
    by blast
  have "load_loop inc ls P (hdr @ concat (map assignment_line lines)) =
          Some (ls2, call_msg_functor m P, False)"
    using 1 [rule_format, of "concat (map assignment_line lines)"] 2 [rule_format, of "[]"] by simp
  then have a: "\<exists>ls'. load_loop inc ls P (hdr @ concat (map assignment_line lines)) =
            Some (ls', P\<lparr>msg_functor := map_option (\<lambda>log. log @ [m]) (msg_functor P)\<rparr>, False) \<and> idle ls'"
    using \<open>idle ls2\<close> by (simp add: call_msg_functor_def)
  have b: "load 0 [''f'' \<mapsto> duplicate_input] ''f'' CFGParser_new = Some duplicate_model"
    by (simp add: duplicate_input_def duplicate_model_def already_exist_msg_def load_eval load_loop.simps)
  have c: "getString duplicate_model ''a'' ''x'' [] = ''1''"
    by (simp add: getString_def duplicate_model_def)
  show ?thesis using a b c unfolding m_def hdr_def by simp
qed

text \<open>
  The second block of scenario S2 with an inheritance list and an attribute list in its
  header, read after the first block; and a whole file with such a duplicate header.
\<close>

theorem C5_duplicate_section_witness:
  "(\<exists>ls'. load_loop (\<lambda>path P. None) after_first_block loaded_a_cfg
             (''[a] : b, c = t, u'' @ nl @ ''x=2'' @ nl) =
           Some (ls',
                 loaded_a_cfg\<lparr>msg_functor := Some [''Error at line '' @ [CHR 0x27] @ ''3'' @ [CHR 0x27] @
                    '', character at '' @ [CHR 0x27] @ ''3'' @ [CHR 0x27] @ '' : '' @ already_exist_msg ''a'']\<rparr>,
                 False)
         \<and> idle ls')
   \<and> load 0 [''f'' \<mapsto> duplicate_lists_input] ''f'' CFGParser_new = Some duplicate_lists_model
   \<and> fst (getInheritances duplicate_lists_model ''a'') = []
   \<and> getString duplicate_lists_model ''a'' ''x'' [] = ''1''"
proof -
  have h1: "parse_action after_first_block = NEW_LINE"
    by (simp add: after_first_block_def locals_init_def)
  have h2: "list_all plain ''a''"
    by (simp add: plain_def case_label_def)
  have h3: "section_data loaded_a_cfg ''a'' \<noteq> None"
    by (simp add: loaded_a_cfg_def)
  have h4: "list_all blank '' ''"
    by (simp add: blank_def)
  have h5: "list_ok (Some '' b, c '')" and h6: "list_ok (Some '' t, u'')"
    by (simp_all add: list_ok_def plain_def blank_def case_label_def)
  have h7: "\<forall>lr \<in> set [(''x'', ''2'')]. key_part (fst lr) \<and> value_part (snd lr)"
    by (simp add: key_part_def value_part_def bare_value_def plain_def blank_def case_label_def)
  have l: "load 0 [''f'' \<mapsto> duplicate_lists_input] ''f'' CFGParser_new = Some duplicate_lists_model"
    by (simp add: duplicate_lists_input_def duplicate_lists_model_def already_exist_msg_def Section_new_def
        load_eval load_loop.simps)
  have g: "fst (getInheritances duplicate_lists_model ''a'') = []"
    "getString duplicate_lists_model ''a'' ''x'' [] = ''1''"
    by (simp_all add: getInheritances_def getString_def duplicate_lists_model_def)
  from C5_duplicate_section [OF h1 h2 h3 h4 h5 h6 h7, of "\<lambda>path P. None"]
  have "\<exists>ls'. load_loop (\<lambda>path P. None) after_first_block loaded_a_cfg
             (''[a] : b, c = t, u'' @ nl @ ''x=2'' @ nl) =
           Some (ls',
                 loaded_a_cfg\<lparr>msg_functor := Some [''Error at line '' @ [CHR 0x27] @ ''3'' @ [CHR 0x27] @
                    '', character at '' @ [CHR 0x27] @ ''3'' @ [CHR 0x27] @ '' : '' @ already_exist_msg ''a'']\<rparr>,
                 False)
         \<and> idle ls'"
    by (simp add: assignment_line_def lists_text_def after_first_block_def locals_init_def loaded_a_cfg_def
        GetErrorLineString_def to_string.simps digit_char_def)
  then show ?thesis
    using l g by simp
qed

subsection \<open>C10: assignment lines while no section is active\<close>

text \<open>
  C10: when no section is active at the start of a line (before the first header, or after a
  header that was rejected as a duplicate), any number of assignment lines leave the whole
  parser unchanged, messages included, and the parser is again at the start of a line with
  no active section. In particular a file that consists of assignment lines only loads to the
  parser it was loaded into, but for the current file. Both the insertion of the key at \<open>=\<close>
  and the commit of the value at the newline do nothing without an active section.
\<close>

theorem C10_assignment_without_section:
  assumes "idle ls" and "\<forall>lr \<in> set lines. key_part (fst lr) \<and> value_part (snd lr)"
  shows "(\<exists>ls'. load_loop inc ls P (concat (map assignment_line lines)) = Some (ls', P, False) \<and> idle ls')
         \<and> (fs file_path = Some (concat (map assignment_line lines)) \<longrightarrow>
              load depth fs file_path P = Some (P\<lparr>current_file := file_path\<rparr>))
         \<and> emplace_key ls P = P \<and> snd (commit_value ls P) = P"
proof -
  from assignment_lines_idle [OF assms, of inc P]
  obtain ls' where "idle ls'"
    and "\<forall>rest. load_loop inc ls P (concat (map assignment_line lines) @ rest) = load_loop inc ls' P rest"
    by blast
  from this(2) [rule_format, of "[]"] \<open>idle ls'\<close>
  have a: "\<exists>ls'. load_loop inc ls P (concat (map assignment_line lines)) = Some (ls', P, False) \<and> idle ls'"
    by simp
  have b: "load depth fs file_path P = Some (P\<lparr>current_file := file_path\<rparr>)"
    if f: "fs file_path = Some (concat (map assignment_line lines))"
  proof -
    have init: "idle locals_init" by (simp add: idle_def locals_init_def)
    have "load_file i fs file_path P = Some (P\<lparr>current_file := file_path\<rparr>)" for i
    proof -
      from assignment_lines_idle [OF init assms(2), of i "P\<lparr>current_file := file_path\<rparr>"]
      obtain ls0 where "idle ls0"
        and "\<forall>rest. load_loop i locals_init (P\<lparr>current_file := file_path\<rparr>) (concat (map assignment_line lines) @ rest)
               = load_loop i ls0 (P\<lparr>current_file := file_path\<rparr>) rest"
        by blast
      from this(2) [rule_format, of "[]"] eof_when_idle [OF \<open>idle ls0\<close>, of i "P\<lparr>current_file := file_path\<rparr>"]
      show ?thesis
        using f by (simp add: load_file_def)
    qed
    then show ?thesis by (cases depth) simp_all
  qed
  have c: "emplace_key ls P = P \<and> snd (commit_value ls P) = P"
    using assms(1) by (simp add: idle_def emplace_key_def commit_value_def)
  show ?thesis using a b c by blast
qed

theorem C10_assignment_without_section_witness:
  "load 0 [''f'' \<mapsto> concat (map assignment_line orphan_lines)] ''f'' CFGParser_new =
     Some (CFGParser_new\<lparr>current_file := ''f''\<rparr>)
   \<and> concat (map assignment_line orphan_lines) =
       ''x = 1'' @ nl @ ''list=1,2'' @ nl @ ''s = '' @ [CHR 0x22] @ ''a]b'' @ [CHR 0x5C] @ ''nc'' @ [CHR 0x22] @ nl"
proof -
  have h1: "idle locals_init"
    by (simp add: idle_def locals_init_def)
  have h2: "\<forall>lr \<in> set orphan_lines. key_part (fst lr) \<and> value_part (snd lr)"
    by (simp add: orphan_lines_def key_part_def value_part_def bare_value_def quoted_value_def
        plain_def blank_def case_label_def)
  from C10_assignment_without_section [OF h1 h2,
      of "\<lambda>path P. None" CFGParser_new "[''f'' \<mapsto> concat (map assignment_line orphan_lines)]" "''f''" 0]
  show ?thesis
    by (simp add: orphan_lines_def assignment_line_def)
qed

subsection \<open>C3: comments\<close>

text \<open>
  C3 says that the text without its comment regions parses to the same model, and that a
  \<open>;\<close> inside a block comment and a \<open>|\<close> inside a line comment have no effect. The code
  differs in three ways. A comment after a value keeps the value from being committed (the
  state is no longer VALUE at the newline): \<open>x=1|c|\<close> leaves \<open>x\<close> empty, its stripped text
  binds \<open>x\<close> to \<open>1\<close>. A \<open>;\<close> inside a block comment enters the state COMMENT, which ends at the
  end of the line, so the header on the next line is read although it stands inside the
  block. A \<open>|\<close> inside a line comment opens a block comment that swallows the following lines.
\<close>

theorem C3_counterexample:
  "strip_comments comment_after_value = ''[a]'' @ nl @ ''x=1'' @ nl
   \<and> load 0 [''f'' \<mapsto> comment_after_value] ''f'' CFGParser_new = Some x_empty_model
   \<and> load 0 [''f'' \<mapsto> strip_comments comment_after_value] ''f'' CFGParser_new = Some x_one_model
   \<and> getString x_empty_model ''a'' ''x'' ''?'' = []
   \<and> getString x_one_model ''a'' ''x'' ''?'' = ''1''
   \<and> strip_comments semicolon_in_block = []
   \<and> load 0 [''f'' \<mapsto> semicolon_in_block] ''f'' CFGParser_new = Some only_a_model
   \<and> load 0 [''f'' \<mapsto> strip_comments semicolon_in_block] ''f'' CFGParser_new = Some no_section_model
   \<and> strip_comments bar_in_line_comment = nl @ ''[a]'' @ nl
   \<and> load 0 [''f'' \<mapsto> bar_in_line_comment] ''f'' CFGParser_new = Some no_section_model
   \<and> load 0 [''f'' \<mapsto> strip_comments bar_in_line_comment] ''f'' CFGParser_new = Some only_a_model
   \<and> hasSection only_a_model ''a'' \<and> \<not> hasSection no_section_model ''a''"
proof -
  have s1: "strip_comments comment_after_value = ''[a]'' @ nl @ ''x=1'' @ nl"
    by (simp add: comment_after_value_def nl_def)
  have s2: "strip_comments semicolon_in_block = []"
    by (simp add: semicolon_in_block_def nl_def)
  have s3: "strip_comments bar_in_line_comment = nl @ ''[a]'' @ nl"
    by (simp add: bar_in_line_comment_def nl_def)
  have 1: "load 0 [''f'' \<mapsto> comment_after_value] ''f'' CFGParser_new = Some x_empty_model"
    by (simp add: comment_after_value_def x_empty_model_def load_eval)
  have 2: "load 0 [''f'' \<mapsto> ''[a]'' @ nl @ ''x=1'' @ nl] ''f'' CFGParser_new = Some x_one_model"
    by (simp add: x_one_model_def load_eval)
  have 3: "load 0 [''f'' \<mapsto> semicolon_in_block] ''f'' CFGParser_new = Some only_a_model"
    by (simp add: semicolon_in_block_def only_a_model_def load_eval)
  have 4: "load 0 [''f'' \<mapsto> []] ''f'' CFGParser_new = Some no_section_model"
    by (simp add: no_section_model_def load_eval)
  have 5: "load 0 [''f'' \<mapsto> bar_in_line_comment] ''f'' CFGParser_new = Some no_section_model"
    by (simp add: bar_in_line_comment_def no_section_model_def load_eval)
  have 6: "load 0 [''f'' \<mapsto> nl @ ''[a]'' @ nl] ''f'' CFGParser_new = Some only_a_model"
    by (simp add: only_a_model_def load_eval)
  have 7: "getString x_empty_model ''a'' ''x'' ''?'' = []" "getString x_one_model ''a'' ''x'' ''?'' = ''1''"
    by (simp_all add: getString_def x_empty_model_def x_one_model_def)
  have 8: "hasSection only_a_model ''a''" "\<not> hasSection no_section_model ''a''"
    by (simp_all add: hasSection_def only_a_model_def no_section_model_def)
  show ?thesis
    using 1 2 3 4 5 6 7 8 by (simp only: s1 s2 s3 simp_thms)
qed

text \<open>
  C3 as amended. Let a file be \<open>pre\<close>, a comment, \<open>post\<close>, where the parser is at the start of
  a line after \<open>pre\<close> (state NEW_LINE, flag set), whatever the includes of \<open>pre\<close> do. Then
  deleting the comment does not change the section map that \<open>load\<close> produces, for any bound on
  includes, any other files, and whichever file is loaded: for a line comment \<open>;\<close> ... newline
  whose body has no \<open>|\<close>, deleted with or without its line break; and for a block comment
  \<open>|\<close> ... \<open>|\<close> whose body has no \<open>;\<close>. Comments elsewhere on a line, and comments that contain
  the other comment character, are not covered.
\<close>

theorem C3_comment_removal_amended:
  assumes "\<forall>inc P. at_line_start (load_loop inc locals_init P pre)"
    and "CHR ''|'' \<notin> set body" and "CHR 0x0A \<notin> set body"
    and "CHR ''|'' \<notin> set block" and "CHR '';'' \<notin> set block"
  shows "map_option section_data (load depth (fs(path \<mapsto> pre @ ('';'' @ body @ nl) @ post)) q P)
           = map_option section_data (load depth (fs(path \<mapsto> pre @ post)) q P)
         \<and> map_option section_data (load depth (fs(path \<mapsto> pre @ ('';'' @ body @ nl) @ post)) q P)
           = map_option section_data (load depth (fs(path \<mapsto> pre @ nl @ post)) q P)
         \<and> map_option section_data (load depth (fs(path \<mapsto> pre @ (''|'' @ block @ ''|'') @ post)) q P)
           = map_option section_data (load depth (fs(path \<mapsto> pre @ post)) q P)"
  using load_edit_sections [OF same_effect_line_comment(2) [OF assms(2,3)] assms(1), of depth fs path post q P]
    load_edit_sections [OF same_effect_line_comment(1) [OF assms(2,3)] assms(1), of depth fs path post q P]
    load_edit_sections [OF same_effect_block_comment [OF assms(4,5)] assms(1), of depth fs path post q P]
  by simp

text \<open>A comment line and a two-line block comment between a header and a key.\<close>

theorem C3_comment_removal_amended_witness:
  "map_option section_data
       (load 0 [''f'' \<mapsto> (''[a]'' @ nl) @ ('';'' @ ''note'' @ nl) @ ''x=1'' @ nl] ''f'' CFGParser_new)
     = map_option section_data (load 0 [''f'' \<mapsto> (''[a]'' @ nl) @ ''x=1'' @ nl] ''f'' CFGParser_new)
   \<and> map_option section_data
       (load 0 [''f'' \<mapsto> (''[a]'' @ nl) @ (''|'' @ (''two'' @ nl @ ''lines'') @ ''|'') @ ''x=1'' @ nl] ''f'' CFGParser_new)
     = map_option section_data (load 0 [''f'' \<mapsto> (''[a]'' @ nl) @ ''x=1'' @ nl] ''f'' CFGParser_new)
   \<and> load 0 [''f'' \<mapsto> (''[a]'' @ nl) @ ''x=1'' @ nl] ''f'' CFGParser_new = Some x_one_model"
proof -
  have h1: "\<forall>inc P. at_line_start (load_loop inc locals_init P (''[a]'' @ nl))"
    by (simp add: at_line_start_def nl_def load_loop.simps switch_on next_pos_def locals_init_def
        case_open_bracket_def case_default_def switch_character_def case_close_bracket_def
        case_newline_def newline_reset_def)
  have h2: "CHR ''|'' \<notin> set ''note''" and h3: "CHR 0x0A \<notin> set ''note''"
    by simp_all
  have h4: "CHR ''|'' \<notin> set (''two'' @ nl @ ''lines'')" and h5: "CHR '';'' \<notin> set (''two'' @ nl @ ''lines'')"
    by (simp_all add: nl_def)
  have v: "load 0 [''f'' \<mapsto> (''[a]'' @ nl) @ ''x=1'' @ nl] ''f'' CFGParser_new = Some x_one_model"
    by (simp add: x_one_model_def load_eval)
  from C3_comment_removal_amended [OF h1 h2 h3 h4 h5, of 0 Map.empty "''f''" "''x=1'' @ nl" "''f''" CFGParser_new]
  show ?thesis
    using v by (elim conjE) (intro conjI; assumption)
qed

subsection \<open>C4: save, then load\<close>

text \<open>
  C4 says that a model whose values hold no comma, no line break and no double quote is
  given back by \<^verbatim>\<open>save\<close> followed by \<^verbatim>\<open>load\<close> into a fresh parser. \<^verbatim>\<open>save\<close> writes a value
  as it is, without quotes, and \<^verbatim>\<open>load\<close> drops the spaces of an unquoted value: the value
  \<open>a b\<close>, loaded from a quoted value, comes back as \<open>ab\<close>. This does not depend on the order
  of the iteration, the model has one section and one key. Moreover, where the iteration
  yields a section before one of its bases, \<^verbatim>\<open>load\<close> rejects the base, which does not exist
  yet, and the inheritance is lost.
\<close>

theorem C4_counterexample:
  "load 0 [''g'' \<mapsto> space_value_input] ''g'' CFGParser_new = Some space_value_model
   \<and> claimed_canonical_value ''a b''
   \<and> save_text [''s''] space_value_keys space_value_model = ''[s]'' @ nl @ ''k = a b'' @ nl @ nl
   \<and> load 0 (save [''s''] space_value_keys ''f'' space_value_model Map.empty) ''f'' CFGParser_new
       = Some space_lost_model
   \<and> getString space_value_model ''s'' ''k'' ''?'' = ''a b''
   \<and> getString space_lost_model ''s'' ''k'' ''?'' = ''ab''
   \<and> load 0 [''g'' \<mapsto> base_later_input] ''g'' CFGParser_new = Some base_later_model
   \<and> save_text [''a'', ''b''] no_keys base_later_model = ''[a] : b'' @ nl @ nl @ ''[b]'' @ nl @ nl
   \<and> load 0 (save [''a'', ''b''] no_keys ''f'' base_later_model Map.empty) ''f'' CFGParser_new
       = Some base_lost_model
   \<and> fst (getInheritances base_later_model ''a'') = [''b'']
   \<and> fst (getInheritances base_lost_model ''a'') = []"
proof -
  have 1: "load 0 [''g'' \<mapsto> space_value_input] ''g'' CFGParser_new = Some space_value_model"
    by (simp add: space_value_input_def space_value_model_def load_eval)
  have 2: "claimed_canonical_value ''a b''"
    by (simp add: claimed_canonical_value_def)
  have 3: "save_text [''s''] space_value_keys space_value_model = ''[s]'' @ nl @ ''k = a b'' @ nl @ nl"
    by (simp add: save_text_def save_section_def header_text_def space_value_keys_def space_value_model_def)
  have 4: "load 0 [''f'' \<mapsto> ''[s]'' @ nl @ ''k = a b'' @ nl @ nl] ''f'' CFGParser_new = Some space_lost_model"
    by (simp add: space_lost_model_def load_eval)
  have 5: "getString space_value_model ''s'' ''k'' ''?'' = ''a b''"
    "getString space_lost_model ''s'' ''k'' ''?'' = ''ab''"
    by (simp_all add: getString_def space_value_model_def space_lost_model_def)
  have 6: "load 0 [''g'' \<mapsto> base_later_input] ''g'' CFGParser_new = Some base_later_model"
    by (simp add: base_later_input_def base_later_model_def Section_new_def load_eval fun_upd_twist)
  have 7: "save_text [''a'', ''b''] no_keys base_later_model = ''[a] : b'' @ nl @ nl @ ''[b]'' @ nl @ nl"
    by (simp add: save_text_def save_section_def header_text_def no_keys_def base_later_model_def Section_new_def)
  have 8: "load 0 [''f'' \<mapsto> ''[a] : b'' @ nl @ nl @ ''[b]'' @ nl @ nl] ''f'' CFGParser_new = Some base_lost_model"
    by (simp add: base_lost_model_def Section_new_def load_eval)
  have 9: "fst (getInheritances base_later_model ''a'') = [''b'']"
    "fst (getInheritances base_lost_model ''a'') = []"
    by (simp_all add: getInheritances_def base_later_model_def base_lost_model_def Section_new_def)
  show ?thesis
    using 1 2 3 4 5 6 7 8 9 by (simp add: save_def)
qed

text \<open>
  C4, amended: let every section name consist of characters that are no case label of the
  switch, every inherited name, attribute and key be a non-empty string of such characters,
  and every value a string of such characters. Let the sections be written in an order in
  which every base of a section is the section itself or is written before it. Then \<^verbatim>\<open>load\<close>
  of the saved file into a parser without sections returns, with the section map of the
  saved model, the path as current file, and no diagnostic.
\<close>

theorem C4_round_trip_amended:
  assumes "canonical P"
    and "enumerates section_order (section_data P)"
    and "\<forall>name sec. section_data P name = Some sec \<longrightarrow> enumerates (value_order name) (values sec)"
    and "bases_first [] section_order P"
    and "section_data P0 = Map.empty"
  shows "load depth (save section_order value_order file_path P fs) file_path P0 =
         Some (P0\<lparr>section_data := section_data P, current_file := file_path\<rparr>)"
  by (rule load_saved [OF assms])

text \<open>Two sections, the second inheriting from the first and from itself.\<close>

theorem C4_round_trip_amended_witness:
  "canonical round_trip_model
   \<and> enumerates [''b'', ''a''] (section_data round_trip_model)
   \<and> bases_first [] [''b'', ''a''] round_trip_model
   \<and> save_text [''b'', ''a''] round_trip_keys round_trip_model
       = ''[b]'' @ nl @ ''p = 1'' @ nl @ nl @ ''[a] : b, a = x, y'' @ nl @ ''e = '' @ nl @ ''k = v'' @ nl @ nl
   \<and> load 0 (save [''b'', ''a''] round_trip_keys ''f'' round_trip_model Map.empty) ''f'' CFGParser_new
       = Some (CFGParser_new\<lparr>section_data := section_data round_trip_model, current_file := ''f''\<rparr>)"
proof -
  have h1: "canonical round_trip_model"
    by (auto simp: canonical_def canonical_section_def name_ok_def round_trip_model_def plain_def case_label_def
        split: if_splits)
  have h2: "enumerates [''b'', ''a''] (section_data round_trip_model)"
    by (auto simp: enumerates_def round_trip_model_def)
  have h3: "\<forall>name sec. section_data round_trip_model name = Some sec
              \<longrightarrow> enumerates (round_trip_keys name) (values sec)"
    by (auto simp: enumerates_def round_trip_model_def round_trip_keys_def split: if_splits)
  have h4: "bases_first [] [''b'', ''a''] round_trip_model"
    by (simp add: round_trip_model_def)
  have h5: "section_data CFGParser_new = Map.empty"
    by (simp add: CFGParser_new_def)
  have t: "save_text [''b'', ''a''] round_trip_keys round_trip_model
       = ''[b]'' @ nl @ ''p = 1'' @ nl @ nl @ ''[a] : b, a = x, y'' @ nl @ ''e = '' @ nl @ ''k = v'' @ nl @ nl"
    by (simp add: save_text_def save_section_def header_text_def round_trip_keys_def round_trip_model_def)
  from C4_round_trip_amended [OF h1 h2 h3 h4 h5, of 0 "''f''" Map.empty]
  show ?thesis
    using h1 h2 h4 t by - (intro conjI; assumption)
qed

end
